theory Spec2Isabelle
  imports Complex_Main "HOL-Library.Char_ord" "HOL-Library.List_Lexorder"
    "HOL-Library.Product_Lexorder"
begin

section \<open>Data model of \<open>infrastructure_brain.py\<close>\<close>

text \<open>
  Python's \<open>int\<close> is unbounded and is modelled by \<open>int\<close>. The \<open>float\<close> fields and the
  \<open>float\<close> expressions of the source (\<open>current_load / capacity\<close>, \<open>capacity * 0.9\<close>,
  \<open>capacity * 0.95\<close>, \<open>current_load * 0.2\<close>) are modelled by exact rational arithmetic:
  the literals \<open>0.9\<close>, \<open>0.95\<close>, \<open>0.2\<close>, \<open>0.5\<close>, \<open>99.9\<close> stand for \<open>9/10\<close>, \<open>19/20\<close>,
  \<open>1/5\<close>, \<open>1/2\<close>, \<open>999/10\<close>. For loads and capacities of the magnitudes the program
  handles (far below \<open>2^26\<close>) the comparisons and the truncation \<open>int(...)\<close> of the
  IEEE doubles agree with the exact ones.

  The methods are coroutines that never yield while they run (the only \<open>await\<close>s are
  calls of one another), so each is modelled as a function from the state before to its
  result and the state after. An exception is a result \<open>Raised\<close>, paired with the state
  at the moment it was raised. The edge network, the satellite module, the traffic
  counters and the logging play no part in the operations below and are left out.
\<close>

datatype CloudProvider = AWS | AZURE | GCP | ORACLE | ALIBABA

datatype RegionStatus = HEALTHY | DEGRADED | CRITICAL | OFFLINE

record DataCenter =
  id_dc :: string
  provider :: CloudProvider
  region :: string
  country :: string
  capacity :: int
  current_load :: int
  status :: RegionStatus
  latency_ms :: rat
  uptime :: rat

record ServiceInstance =
  id_svc :: string
  service_name :: string
  datacenter_id :: string
  cpu_usage :: rat
  memory_usage :: rat
  requests_per_sec :: int
  health :: rat

text \<open>
  The state the operations share: the orchestrator's two dictionaries and the healing
  engine's counter. \<open>datacenters\<close> holds the values of the dictionary in insertion
  order (the operations below only ever read \<open>self.datacenters.values()\<close>); a data
  centre object is identified by its position, and different positions hold different
  objects. \<open>services\<close> is the dictionary as an
  association list in insertion order, since its keys are written and deleted.
\<close>

record brain =
  datacenters :: "DataCenter list"
  services :: "(string \<times> ServiceInstance) list"
  healing_actions :: int

datatype py_error = ZeroDivisionError | ValueError | KeyError

datatype 'a result = Returned 'a | Raised py_error

section \<open>Python primitives\<close>

text \<open>\<open>d[k] = v\<close>: an existing key keeps its position, a new key goes last.\<close>

fun dict_set :: "('k \<times> 'v) list \<Rightarrow> 'k \<Rightarrow> 'v \<Rightarrow> ('k \<times> 'v) list" where
  "dict_set [] k v = [(k, v)]"
| "dict_set ((k', v') # kvs) k v =
     (if k' = k then (k, v) # kvs else (k', v') # dict_set kvs k v)"

text \<open>\<open>del d[k]\<close>: raises \<open>KeyError\<close> when the key is absent.\<close>

definition dict_del :: "('k \<times> 'v) list \<Rightarrow> 'k \<Rightarrow> py_error + ('k \<times> 'v) list" where
  "dict_del kvs k =
     (if k \<in> set (map fst kvs) then Inr (filter (\<lambda>kv. fst kv \<noteq> k) kvs)
      else Inl KeyError)"

text \<open>\<open>xs[:n]\<close>: a negative bound counts from the end.\<close>

definition py_slice_to :: "int \<Rightarrow> 'a list \<Rightarrow> 'a list" where
  "py_slice_to n xs =
     (if 0 \<le> n then take (nat n) xs else take (nat (int (length xs) + n)) xs)"

text \<open>\<open>min(xs, key=f)\<close> keeps the first item and replaces it only by a strictly
  smaller one, so it returns the first minimal item; on an empty list it raises
  \<open>ValueError\<close>.\<close>

fun min_from :: "('a \<Rightarrow> 'k::linorder) \<Rightarrow> 'a \<Rightarrow> 'a list \<Rightarrow> 'a" where
  "min_from f best [] = best"
| "min_from f best (x # xs) = min_from f (if f x < f best then x else best) xs"

definition py_min :: "('a \<Rightarrow> 'k::linorder) \<Rightarrow> 'a list \<Rightarrow> py_error + 'a" where
  "py_min f xs = (case xs of [] \<Rightarrow> Inl ValueError | x # rest \<Rightarrow> Inr (min_from f x rest))"

text \<open>\<open>int(x)\<close> on a float truncates towards zero.\<close>

definition py_int :: "rat \<Rightarrow> int" where
  "py_int q = (if 0 \<le> q then \<lfloor>q\<rfloor> else \<lceil>q\<rceil>)"

text \<open>\<open>str(n)\<close> for an integer, as the f-string formats it.\<close>

definition digit_char :: "nat \<Rightarrow> char" where
  "digit_char d = char_of (48 + d)"

fun str_nat :: "nat \<Rightarrow> string" where
  "str_nat n = (if n < 10 then [digit_char n] else str_nat (n div 10) @ [digit_char (n mod 10)])"

declare str_nat.simps [simp del]

definition str_int :: "int \<Rightarrow> string" where
  "str_int n = (if n < 0 then CHR ''-'' # str_nat (nat (- n)) else str_nat (nat n))"

section \<open>MultiCloudOrchestrator\<close>

text \<open>The sort key of \<open>deploy_service\<close> and the \<open>min\<close> key of \<open>_heal_overload\<close>:
  \<open>dc.current_load / dc.capacity\<close>, which raises when the capacity is zero.\<close>

definition load_ratio :: "DataCenter \<Rightarrow> rat" where
  "load_ratio dc = rat_of_int (current_load dc) / rat_of_int (capacity dc)"

text \<open>
  \<open>sorted(self.datacenters.values(), key=...)[:replicas]\<close>. \<open>sorted\<close> is stable and
  calls the key on every item, so one zero capacity raises before anything is
  changed. The result is the list of the selected objects, here their positions.
\<close>

definition available_dcs :: "int \<Rightarrow> DataCenter list \<Rightarrow> py_error + nat list" where
  "available_dcs replicas dcs =
     (if list_ex (\<lambda>dc. capacity dc = 0) dcs then Inl ZeroDivisionError
      else Inr (py_slice_to replicas
                 (sort_key (\<lambda>i. load_ratio (dcs ! i)) [0..<length dcs])))"

definition new_instance :: "string \<Rightarrow> string \<Rightarrow> string \<Rightarrow> ServiceInstance" where
  "new_instance iid name dcid =
     \<lparr>id_svc = iid, service_name = name, datacenter_id = dcid, cpu_usage = 0,
      memory_usage = 0, requests_per_sec = 0, health = 1\<rparr>"

definition instance_id :: "string \<Rightarrow> string \<Rightarrow> int \<Rightarrow> string" where
  "instance_id name dcid t = name @ ''-'' @ dcid @ ''-'' @ str_int t"

text \<open>
  The loop of \<open>deploy_service\<close> over the selected data centres. \<open>clock k\<close> is the value
  of \<open>int(time.time())\<close> read in iteration \<open>k\<close>.
\<close>

fun deploy_loop ::
  "string \<Rightarrow> (nat \<Rightarrow> int) \<Rightarrow> nat \<Rightarrow> nat list \<Rightarrow> brain \<Rightarrow> string list \<Rightarrow> brain \<times> string list"
where
  "deploy_loop name clock k [] st deployed = (st, deployed)"
| "deploy_loop name clock k (i # sel) st deployed =
     (let dc = datacenters st ! i;
          iid = instance_id name (id_dc dc) (clock k);
          st' = st\<lparr>services := dict_set (services st) iid (new_instance iid name (id_dc dc)),
                   datacenters := (datacenters st)[i := dc\<lparr>current_load := current_load dc + 1000\<rparr>]\<rparr>
      in deploy_loop name clock (Suc k) sel st' (deployed @ [iid]))"

definition deploy_service ::
  "string \<Rightarrow> int \<Rightarrow> (nat \<Rightarrow> int) \<Rightarrow> brain \<Rightarrow> string list result \<times> brain" where
  "deploy_service name replicas clock st =
     (case available_dcs replicas (datacenters st) of
        Inl e \<Rightarrow> (Raised e, st)
      | Inr sel \<Rightarrow>
          (let (st', deployed) = deploy_loop name clock 0 sel st [] in (Returned deployed, st')))"

text \<open>The scale-down loop: \<open>for _ in range(to_remove): if current_instances: ...\<close>.\<close>

fun scale_down :: "nat \<Rightarrow> ServiceInstance list \<Rightarrow> brain \<Rightarrow> unit result \<times> brain" where
  "scale_down 0 cur st = (Returned (), st)"
| "scale_down (Suc n) cur st =
     (if cur = [] then scale_down n cur st
      else (case dict_del (services st) (id_svc (last cur)) of
              Inl e \<Rightarrow> (Raised e, st)
            | Inr svcs \<Rightarrow> scale_down n (butlast cur) (st\<lparr>services := svcs\<rparr>)))"

definition current_instances :: "string \<Rightarrow> brain \<Rightarrow> ServiceInstance list" where
  "current_instances name st = filter (\<lambda>s. service_name s = name) (map snd (services st))"

definition scale_service ::
  "string \<Rightarrow> int \<Rightarrow> (nat \<Rightarrow> int) \<Rightarrow> brain \<Rightarrow> unit result \<times> brain" where
  "scale_service name target_instances clock st =
     (let cur = current_instances name st;
          current_count = int (length cur)
      in if target_instances > current_count then
           (case deploy_service name (target_instances - current_count) clock st of
              (Raised e, st') \<Rightarrow> (Raised e, st')
            | (Returned _, st') \<Rightarrow> (Returned (), st'))
         else if target_instances < current_count then
           scale_down (nat (current_count - target_instances)) cur st
         else (Returned (), st))"

definition routable :: "DataCenter \<Rightarrow> bool" where
  "routable dc \<longleftrightarrow>
     status dc = HEALTHY \<and> rat_of_int (current_load dc) < rat_of_int (capacity dc) * (9 / 10)"

definition route_traffic :: "string \<Rightarrow> brain \<Rightarrow> string option" where
  "route_traffic user_location st =
     (case py_min latency_ms (filter routable (datacenters st)) of
        Inl _ \<Rightarrow> None
      | Inr best_dc \<Rightarrow> Some (id_dc best_dc))"

section \<open>SelfHealingEngine\<close>

definition is_overloaded :: "DataCenter \<Rightarrow> bool" where
  "is_overloaded dc \<longleftrightarrow> rat_of_int (current_load dc) > rat_of_int (capacity dc) * (19 / 20)"

definition migration_amount :: "DataCenter \<Rightarrow> int" where
  "migration_amount dc = py_int (rat_of_int (current_load dc) * (1 / 5))"

text \<open>The candidates of \<open>_heal_overload\<close>: the data centres whose id differs from the
  source's, as positions, in dictionary order.\<close>

definition other_dcs :: "nat \<Rightarrow> DataCenter list \<Rightarrow> nat list" where
  "other_dcs i dcs = filter (\<lambda>j. id_dc (dcs ! j) \<noteq> id_dc (dcs ! i)) [0..<length dcs]"

definition target_dc :: "nat \<Rightarrow> DataCenter list \<Rightarrow> py_error + nat" where
  "target_dc i dcs =
     (let cands = other_dcs i dcs
      in if cands = [] then Inl ValueError
         else if list_ex (\<lambda>j. capacity (dcs ! j) = 0) cands then Inl ZeroDivisionError
         else py_min (\<lambda>j. load_ratio (dcs ! j)) cands)"

definition add_load :: "nat \<Rightarrow> int \<Rightarrow> DataCenter list \<Rightarrow> DataCenter list" where
  "add_load i delta dcs = dcs[i := (dcs ! i)\<lparr>current_load := current_load (dcs ! i) + delta\<rparr>]"

definition heal_overload :: "nat \<Rightarrow> brain \<Rightarrow> unit result \<times> brain" where
  "heal_overload i st =
     (case target_dc i (datacenters st) of
        Inl e \<Rightarrow> (Raised e, st)
      | Inr t \<Rightarrow>
          (let m = migration_amount (datacenters st ! i)
           in (Returned (),
               st\<lparr>datacenters := add_load t m (add_load i (- m) (datacenters st)),
                  healing_actions := healing_actions st + 1\<rparr>)))"

definition heal_datacenter :: "nat \<Rightarrow> brain \<Rightarrow> brain" where
  "heal_datacenter i st =
     st\<lparr>datacenters := (datacenters st)[i := (datacenters st ! i)\<lparr>status := HEALTHY, uptime := 999 / 10\<rparr>],
        healing_actions := healing_actions st + 1\<rparr>"

definition heal_service :: "ServiceInstance \<Rightarrow> ServiceInstance" where
  "heal_service s = s\<lparr>health := 1, cpu_usage := 50, memory_usage := 60\<rparr>"

text \<open>The body of the first loop of \<open>monitor_and_heal\<close> for the data centre at
  position \<open>i\<close>: an exception of \<open>_heal_overload\<close> leaves the loop.\<close>

definition check_datacenter :: "nat \<Rightarrow> brain \<Rightarrow> unit result \<times> brain" where
  "check_datacenter i st =
     (case (if is_overloaded (datacenters st ! i) then heal_overload i st else (Returned (), st)) of
        (Raised e, st') \<Rightarrow> (Raised e, st')
      | (Returned _, st') \<Rightarrow>
          (if status (datacenters st' ! i) \<noteq> HEALTHY then (Returned (), heal_datacenter i st')
           else (Returned (), st')))"

fun check_datacenters :: "nat list \<Rightarrow> brain \<Rightarrow> unit result \<times> brain" where
  "check_datacenters [] st = (Returned (), st)"
| "check_datacenters (i # rest) st =
     (case check_datacenter i st of
        (Raised e, st') \<Rightarrow> (Raised e, st')
      | (Returned _, st') \<Rightarrow> check_datacenters rest st')"

text \<open>The second loop: the instances in dictionary order, with the counter.\<close>

fun check_services ::
  "(string \<times> ServiceInstance) list \<Rightarrow> int \<Rightarrow> (string \<times> ServiceInstance) list \<times> int" where
  "check_services [] n = ([], n)"
| "check_services ((k, s) # rest) n =
     (if health s < 1 / 2
      then (let (rest', n') = check_services rest (n + 1) in ((k, heal_service s) # rest', n'))
      else (let (rest', n') = check_services rest n in ((k, s) # rest', n')))"

definition monitor_and_heal :: "brain \<Rightarrow> unit result \<times> brain" where
  "monitor_and_heal st =
     (case check_datacenters [0..<length (datacenters st)] st of
        (Raised e, st') \<Rightarrow> (Raised e, st')
      | (Returned _, st') \<Rightarrow>
          (let (svcs, n) = check_services (services st') (healing_actions st')
           in (Returned (), st'\<lparr>services := svcs, healing_actions := n\<rparr>)))"

section \<open>Constructors and example registries\<close>

text \<open>\<open>DataCenter(...)\<close> with the fields the operations read given explicitly, and a
  state with no healing action counted yet.\<close>

definition mk_dc :: "string \<Rightarrow> int \<Rightarrow> int \<Rightarrow> RegionStatus \<Rightarrow> rat \<Rightarrow> DataCenter" where
  "mk_dc i cap load stat lat =
     \<lparr>id_dc = i, provider = AWS, region = ''r'', country = ''c'', capacity = cap,
      current_load = load, status = stat, latency_ms = lat, uptime = 100\<rparr>"

definition mk_brain :: "DataCenter list \<Rightarrow> (string \<times> ServiceInstance) list \<Rightarrow> brain" where
  "mk_brain dcs svcs = \<lparr>datacenters = dcs, services = svcs, healing_actions = 0\<rparr>"

definition two_pools :: brain where
  "two_pools = mk_brain [mk_dc ''A'' 100 96 HEALTHY 10, mk_dc ''B'' 100 0 HEALTHY 10] []"

definition tie_pools :: brain where
  "tie_pools = mk_brain [mk_dc ''b'' 100 0 HEALTHY 10, mk_dc ''a'' 100 0 HEALTHY 10] []"

section \<open>Notions used to state the properties\<close>

text \<open>The operations that change a load, and the state after a sequence of them. An
  operation that raises leaves the state it had reached; \<open>_heal_overload\<close> is applied
  to a data centre of the registry.\<close>

definition loads_nonneg :: "brain \<Rightarrow> bool" where
  "loads_nonneg st \<longleftrightarrow> list_all (\<lambda>dc. 0 \<le> current_load dc) (datacenters st)"

datatype operation =
    Deploy string int "nat \<Rightarrow> int"
  | Scale string int "nat \<Rightarrow> int"
  | HealOverload nat
  | MonitorAndHeal

fun apply_op :: "operation \<Rightarrow> brain \<Rightarrow> brain" where
  "apply_op (Deploy name replicas clock) st = snd (deploy_service name replicas clock st)"
| "apply_op (Scale name target clock) st = snd (scale_service name target clock st)"
| "apply_op (HealOverload i) st =
     (if i < length (datacenters st) then snd (heal_overload i st) else st)"
| "apply_op MonitorAndHeal st = snd (monitor_and_heal st)"

definition run_ops :: "operation list \<Rightarrow> brain \<Rightarrow> brain" where
  "run_ops ops st = fold apply_op ops st"

definition total_load :: "brain \<Rightarrow> int" where
  "total_load st = sum_list (map current_load (datacenters st))"

text \<open>The routing rule as the specification words it: among the routable data centres
  the minimum latency, ties broken by the id.\<close>

definition route_latency_then_id :: "brain \<Rightarrow> string option" where
  "route_latency_then_id st =
     (case py_min (\<lambda>dc. (latency_ms dc, id_dc dc)) (filter routable (datacenters st)) of
        Inl _ \<Rightarrow> None
      | Inr best_dc \<Rightarrow> Some (id_dc best_dc))"

text \<open>The step, written with the intermediate state made explicit.\<close>

definition after_overload_check :: "nat \<Rightarrow> brain \<Rightarrow> unit result \<times> brain" where
  "after_overload_check i st =
     (if is_overloaded (datacenters st ! i) then heal_overload i st else (Returned (), st))"

definition after_status_check :: "nat \<Rightarrow> brain \<Rightarrow> brain" where
  "after_status_check i st =
     (if status (datacenters st ! i) \<noteq> HEALTHY then heal_datacenter i st else st)"

text \<open>Registries on which \<open>_heal_overload\<close> finds a target for every data centre: no
  capacity is zero and two data centres differ in their id. A cycle on such a registry,
  or on one without an overloaded data centre, meets no exception.\<close>

definition has_two_ids :: "DataCenter list \<Rightarrow> bool" where
  "has_two_ids dcs \<longleftrightarrow> list_ex (\<lambda>a. list_ex (\<lambda>b. id_dc a \<noteq> id_dc b) dcs) dcs"

definition registry_safe :: "DataCenter list \<Rightarrow> bool" where
  "registry_safe dcs \<longleftrightarrow> list_all (\<lambda>dc. capacity dc \<noteq> 0) dcs \<and> has_two_ids dcs"

definition cycle_safe :: "brain \<Rightarrow> bool" where
  "cycle_safe st \<longleftrightarrow>
     registry_safe (datacenters st) \<or> \<not> list_ex is_overloaded (datacenters st)"

definition single_degraded :: brain where
  "single_degraded =
     mk_brain [mk_dc ''A'' 100 96 DEGRADED 10]
       [(''svc-A-5'', (new_instance ''svc-A-5'' ''svc'' ''A'')\<lparr>health := 1 / 5\<rparr>)]"

definition degraded_pair :: brain where
  "degraded_pair =
     mk_brain [mk_dc ''A'' 100 96 DEGRADED 10, mk_dc ''B'' 100 0 HEALTHY 10]
       [(''svc-A-5'', (new_instance ''svc-A-5'' ''svc'' ''A'')\<lparr>health := 1 / 5\<rparr>)]"

definition healthy_pair :: brain where
  "healthy_pair =
     mk_brain [mk_dc ''A'' 100 50 HEALTHY 10, mk_dc ''B'' 100 0 HEALTHY 10]
       [(''svc-A-5'', new_instance ''svc-A-5'' ''svc'' ''A'')]"

text \<open>What the recovery of one data centre makes of its status and uptime.\<close>

definition recovered :: "RegionStatus \<times> rat \<Rightarrow> RegionStatus \<times> rat" where
  "recovered su = (if fst su \<noteq> HEALTHY then (HEALTHY, 999 / 10) else su)"

definition status_uptime :: "DataCenter \<Rightarrow> RegionStatus \<times> rat" where
  "status_uptime dc = (status dc, uptime dc)"

definition checked_instance :: "ServiceInstance \<Rightarrow> ServiceInstance" where
  "checked_instance s = (if health s < 1 / 2 then heal_service s else s)"

definition already_healthy :: "brain \<Rightarrow> bool" where
  "already_healthy st \<longleftrightarrow>
     list_all (\<lambda>dc. status dc = HEALTHY \<and> \<not> is_overloaded dc) (datacenters st) \<and>
     list_all (\<lambda>kv. \<not> health (snd kv) < 1 / 2) (services st)"

text \<open>The state in which the first loop of \<open>monitor_and_heal\<close> reaches position \<open>i\<close>.\<close>

definition state_at_visit :: "nat \<Rightarrow> brain \<Rightarrow> brain" where
  "state_at_visit i st = snd (check_datacenters [0..<i] st)"

definition empty_pair :: brain where
  "empty_pair = mk_brain [mk_dc ''A'' 100 0 HEALTHY 10, mk_dc ''B'' 100 0 HEALTHY 10] []"

definition overfull_pair :: brain where
  "overfull_pair = snd (deploy_service ''svc'' 2 (\<lambda>_. 5) empty_pair)"

definition slightly_over :: brain where
  "slightly_over = mk_brain [mk_dc ''A'' 100 110 HEALTHY 10, mk_dc ''B'' 100 0 HEALTHY 10] []"

text \<open>The shape \<open>deploy_service\<close> gives the instance table: every key is the id of its
  instance (and, the table being a dictionary, no key occurs twice).\<close>

definition services_wf :: "(string \<times> ServiceInstance) list \<Rightarrow> bool" where
  "services_wf svcs \<longleftrightarrow>
     distinct (map fst svcs) \<and> list_all (\<lambda>kv. fst kv = id_svc (snd kv)) svcs"

definition service_count :: "string \<Rightarrow> brain \<Rightarrow> nat" where
  "service_count name st = length (current_instances name st)"

definition one_pool :: brain where
  "one_pool = mk_brain [mk_dc ''A'' 100000 0 HEALTHY 10] []"

definition one_instance :: brain where
  "one_instance = snd (deploy_service ''svc'' 1 (\<lambda>_. 5) one_pool)"

definition two_instances :: brain where
  "two_instances = snd (deploy_service ''svc'' 1 (\<lambda>_. 6) one_instance)"

text \<open>The dictionary entries the loop of \<open>deploy_service\<close> writes, in order, for the
  selected positions, starting with iteration \<open>k\<close>.\<close>

fun new_entries ::
  "string \<Rightarrow> (nat \<Rightarrow> int) \<Rightarrow> nat \<Rightarrow> nat list \<Rightarrow> DataCenter list \<Rightarrow> (string \<times> ServiceInstance) list"
where
  "new_entries name clock k [] dcs = []"
| "new_entries name clock k (i # sel) dcs =
     (instance_id name (id_dc (dcs ! i)) (clock k),
      new_instance (instance_id name (id_dc (dcs ! i)) (clock k)) name (id_dc (dcs ! i)))
     # new_entries name clock (Suc k) sel dcs"

text \<open>The selection rule as the specification words it: the lowest ratios, ties broken
  by the id in ascending order.\<close>

definition place_by_ratio_then_id :: "int \<Rightarrow> DataCenter list \<Rightarrow> nat list" where
  "place_by_ratio_then_id replicas dcs =
     py_slice_to replicas
       (sort_key (\<lambda>i. (load_ratio (dcs ! i), id_dc (dcs ! i))) [0..<length dcs])"

section \<open>Properties of the code\<close>

lemma length_add_load [simp]: "length (add_load i d dcs) = length dcs"
  by (simp add: add_load_def)

lemma sum_list_update_int:
  fixes xs :: "int list"
  shows "i < length xs \<Longrightarrow> sum_list (xs[i := v]) = sum_list xs - xs ! i + v"
  by (induction xs arbitrary: i) (auto split: nat.splits)

lemma sum_add_load:
  "i < length dcs \<Longrightarrow>
   sum_list (map current_load (add_load i d dcs)) = sum_list (map current_load dcs) + d"
  by (simp add: add_load_def map_update sum_list_update_int)

lemma min_from_mem: "min_from f b xs \<in> set (b # xs)"
  by (induction xs arbitrary: b) auto

lemma min_from_le: "y \<in> set (b # xs) \<Longrightarrow> f (min_from f b xs) \<le> f y"
proof (induction xs arbitrary: b y)
  case Nil
  then show ?case by simp
next
  case (Cons x xs)
  define b' where "b' = (if f x < f b then x else b)"
  have best: "f (min_from f b' xs) \<le> f b'"
    using Cons.IH [of b' b'] by simp
  have b': "f b' \<le> f b" "f b' \<le> f x"
    by (auto simp: b'_def)
  have "f (min_from f b' xs) \<le> f y"
  proof (cases "y \<in> set xs")
    case True
    then show ?thesis using Cons.IH [of y b'] by simp
  next
    case False
    with Cons.prems have "y = b \<or> y = x" by auto
    with best b' show ?thesis by auto
  qed
  then show ?case by (simp add: b'_def)
qed

lemma py_min_mem: "py_min f xs = Inr m \<Longrightarrow> m \<in> set xs"
  using min_from_mem [of f] by (auto simp: py_min_def split: list.splits)

lemma py_min_le: "py_min f xs = Inr m \<Longrightarrow> y \<in> set xs \<Longrightarrow> f m \<le> f y"
  using min_from_le [of y _ _ f] by (auto simp: py_min_def split: list.splits)

lemma target_dc_other: "target_dc i dcs = Inr t \<Longrightarrow> t \<in> set (other_dcs i dcs)"
  by (auto simp: target_dc_def Let_def dest: py_min_mem split: if_splits)

lemma target_dc_range:
  "target_dc i dcs = Inr t \<Longrightarrow> t < length dcs \<and> id_dc (dcs ! t) \<noteq> id_dc (dcs ! i)"
  by (drule target_dc_other) (simp add: other_dcs_def)

lemma target_dc_neq: "target_dc i dcs = Inr t \<Longrightarrow> t \<noteq> i"
  by (auto dest: target_dc_range)

lemma heal_overload_length [simp]:
  "length (datacenters (snd (heal_overload i st))) = length (datacenters st)"
  by (simp add: heal_overload_def Let_def split: sum.splits)

lemma heal_overload_total:
  assumes "i < length (datacenters st)"
  shows "total_load (snd (heal_overload i st)) = total_load st"
proof (cases "target_dc i (datacenters st)")
  case (Inl e)
  then show ?thesis by (simp add: heal_overload_def)
next
  case (Inr t)
  then have "t < length (datacenters st)" by (simp add: target_dc_range)
  with assms Inr show ?thesis
    by (simp add: heal_overload_def Let_def total_load_def sum_add_load)
qed

lemma map_update_same: "(map f xs)[i := f (xs ! i)] = map f xs"
  by (cases "i < length xs") (simp_all add: list_update_same_conv list_update_beyond)

lemma heal_datacenter_length [simp]:
  "length (datacenters (heal_datacenter i st)) = length (datacenters st)"
  by (simp add: heal_datacenter_def)

lemma heal_datacenter_loads [simp]:
  "map current_load (datacenters (heal_datacenter i st)) = map current_load (datacenters st)"
  by (simp add: heal_datacenter_def map_update map_update_same)

lemma check_datacenter_length [simp]:
  "length (datacenters (snd (check_datacenter i st))) = length (datacenters st)"
proof -
  have "length (datacenters (snd (heal_overload i st))) = length (datacenters st)" by simp
  then show ?thesis
  by (cases "heal_overload i st"; cases "fst (heal_overload i st)")
     (auto simp: check_datacenter_def split: result.splits)
qed

lemma check_datacenter_total:
  assumes "i < length (datacenters st)"
  shows "total_load (snd (check_datacenter i st)) = total_load st"
proof -
  have "total_load (snd (heal_overload i st)) = total_load st"
    using assms by (rule heal_overload_total)
  then show ?thesis
  by (cases "heal_overload i st"; cases "fst (heal_overload i st)")
     (auto simp: check_datacenter_def total_load_def split: result.splits)
qed

lemma check_datacenters_length [simp]:
  "length (datacenters (snd (check_datacenters is st))) = length (datacenters st)"
proof (induction "is" arbitrary: st)
  case Nil
  then show ?case by simp
next
  case (Cons i rest)
  have "length (datacenters (snd (check_datacenter i st))) = length (datacenters st)" by simp
  with Cons show ?case
    by (cases "check_datacenter i st") (auto split: result.splits)
qed

lemma check_datacenters_total:
  "\<forall>i \<in> set is. i < length (datacenters st) \<Longrightarrow>
   total_load (snd (check_datacenters is st)) = total_load st"
proof (induction "is" arbitrary: st)
  case Nil
  then show ?case by simp
next
  case (Cons i rest)
  have l: "length (datacenters (snd (check_datacenter i st))) = length (datacenters st)" by simp
  have t: "total_load (snd (check_datacenter i st)) = total_load st"
    using Cons.prems by (simp add: check_datacenter_total)
  show ?case
  proof (cases "check_datacenter i st")
    case (Pair r st')
    with l t Cons show ?thesis by (cases r) auto
  qed
qed

text \<open>
  Claim C10 (load conservation under healing). One call of \<open>monitor_and_heal\<close> never
  changes the sum of \<open>current_load\<close> over all data centres: a migration subtracts from
  the source what it adds to the target, and the recoveries of data centres and of
  instances do not touch the load. This holds for every state, also when the cycle is
  left by an exception, since \<open>_heal_overload\<close> raises before it writes.
\<close>

theorem monitor_and_heal_conserves_load:
  "total_load (snd (monitor_and_heal st)) = total_load st"
proof -
  have t: "total_load (snd (check_datacenters [0..<length (datacenters st)] st)) = total_load st"
    by (rule check_datacenters_total) simp
  show ?thesis
  proof (cases "check_datacenters [0..<length (datacenters st)] st")
    case (Pair r st')
    with t show ?thesis
      by (cases r) (auto simp: monitor_and_heal_def total_load_def split: prod.splits)
  qed
qed

lemma migration_amount_nonneg_load:
  assumes "0 \<le> current_load dc"
  shows "migration_amount dc = current_load dc div 5"
proof -
  have "rat_of_int (current_load dc) * (1 / 5) = rat_of_int (current_load dc) / rat_of_int 5"
    by simp
  moreover have "0 \<le> rat_of_int (current_load dc) / rat_of_int 5"
    using assms by simp
  ultimately show ?thesis
    unfolding migration_amount_def py_int_def
    by (simp only: if_True floor_divide_of_int_eq)
qed

lemma migration_amount_bounds:
  "0 \<le> current_load dc \<Longrightarrow> 0 \<le> migration_amount dc \<and> migration_amount dc \<le> current_load dc"
  by (simp add: migration_amount_nonneg_load) presburger

lemma list_all_update:
  "list_all P xs \<Longrightarrow> (i < length xs \<Longrightarrow> P v) \<Longrightarrow> list_all P (xs[i := v])"
  by (induction xs arbitrary: i) (auto split: nat.splits)

lemma nonneg_add_load:
  "list_all (\<lambda>dc. 0 \<le> current_load dc) dcs \<Longrightarrow> i < length dcs \<Longrightarrow>
   0 \<le> current_load (dcs ! i) + d \<Longrightarrow>
   list_all (\<lambda>dc. 0 \<le> current_load dc) (add_load i d dcs)"
  by (simp add: add_load_def list_all_update)

lemma nth_add_load:
  "j < length dcs \<Longrightarrow>
   current_load (add_load i d dcs ! j) = (if j = i then current_load (dcs ! j) + d else current_load (dcs ! j))"
  by (simp add: add_load_def nth_list_update)

lemma heal_overload_nonneg:
  assumes "loads_nonneg st" and "i < length (datacenters st)"
  shows "loads_nonneg (snd (heal_overload i st))"
proof (cases "target_dc i (datacenters st)")
  case (Inl e)
  with assms show ?thesis by (simp add: heal_overload_def)
next
  case (Inr t)
  let ?dcs = "datacenters st"
  let ?m = "migration_amount (?dcs ! i)"
  have all: "list_all (\<lambda>dc. 0 \<le> current_load dc) ?dcs"
    using assms(1) by (simp add: loads_nonneg_def)
  have t: "t < length ?dcs" "t \<noteq> i"
    using Inr by (simp_all add: target_dc_range target_dc_neq)
  have li: "0 \<le> current_load (?dcs ! i)" and lt: "0 \<le> current_load (?dcs ! t)"
    using all assms(2) t(1) by (simp_all add: list_all_length)
  have m: "0 \<le> ?m" "?m \<le> current_load (?dcs ! i)"
    using migration_amount_bounds [OF li] by simp_all
  have 1: "list_all (\<lambda>dc. 0 \<le> current_load dc) (add_load i (- ?m) ?dcs)"
    using all assms(2) m by (simp add: nonneg_add_load)
  have "current_load (add_load i (- ?m) ?dcs ! t) = current_load (?dcs ! t)"
    using t by (simp add: nth_add_load)
  then have 2: "list_all (\<lambda>dc. 0 \<le> current_load dc) (add_load t ?m (add_load i (- ?m) ?dcs))"
    using 1 t(1) lt m(1) by (simp add: nonneg_add_load)
  show ?thesis
    using Inr 2 by (simp add: heal_overload_def Let_def loads_nonneg_def)
qed

lemma heal_datacenter_nonneg:
  assumes "loads_nonneg st"
  shows "loads_nonneg (heal_datacenter i st)"
proof -
  have "list_all (\<lambda>dc. 0 \<le> current_load dc)
          ((datacenters st)[i := (datacenters st ! i)\<lparr>status := HEALTHY, uptime := 999 / 10\<rparr>])"
    using assms by (intro list_all_update) (simp_all add: loads_nonneg_def list_all_length)
  then show ?thesis by (simp add: loads_nonneg_def heal_datacenter_def)
qed

lemma check_datacenter_nonneg:
  assumes "loads_nonneg st" and "i < length (datacenters st)"
  shows "loads_nonneg (snd (check_datacenter i st))"
proof -
  have "loads_nonneg (snd (heal_overload i st))"
    using assms by (rule heal_overload_nonneg)
  with assms(1) show ?thesis
    by (cases "heal_overload i st"; cases "fst (heal_overload i st)")
       (auto simp: check_datacenter_def heal_datacenter_nonneg split: result.splits)
qed

lemma check_datacenters_nonneg:
  "loads_nonneg st \<Longrightarrow> \<forall>i \<in> set is. i < length (datacenters st) \<Longrightarrow>
   loads_nonneg (snd (check_datacenters is st))"
proof (induction "is" arbitrary: st)
  case Nil
  then show ?case by simp
next
  case (Cons i rest)
  have l: "length (datacenters (snd (check_datacenter i st))) = length (datacenters st)" by simp
  have n: "loads_nonneg (snd (check_datacenter i st))"
    using Cons.prems by (simp add: check_datacenter_nonneg)
  show ?case
  proof (cases "check_datacenter i st")
    case (Pair r st')
    with l n Cons show ?thesis by (cases r) auto
  qed
qed

lemma monitor_and_heal_nonneg:
  assumes "loads_nonneg st"
  shows "loads_nonneg (snd (monitor_and_heal st))"
proof -
  have n: "loads_nonneg (snd (check_datacenters [0..<length (datacenters st)] st))"
    using assms by (rule check_datacenters_nonneg) simp
  show ?thesis
  proof (cases "check_datacenters [0..<length (datacenters st)] st")
    case (Pair r st')
    with n show ?thesis
      by (cases r) (auto simp: monitor_and_heal_def loads_nonneg_def split: prod.splits)
  qed
qed

lemma deploy_loop_nonneg:
  "loads_nonneg st \<Longrightarrow> loads_nonneg (fst (deploy_loop name clock k sel st deployed))"
proof (induction sel arbitrary: st k deployed)
  case Nil
  then show ?case by simp
next
  case (Cons i sel)
  let ?dc = "datacenters st ! i"
  let ?iid = "instance_id name (id_dc ?dc) (clock k)"
  let ?st = "st\<lparr>services := dict_set (services st) ?iid (new_instance ?iid name (id_dc ?dc)),
                 datacenters := (datacenters st)[i := ?dc\<lparr>current_load := current_load ?dc + 1000\<rparr>]\<rparr>"
  have "list_all (\<lambda>dc. 0 \<le> current_load dc)
          ((datacenters st)[i := ?dc\<lparr>current_load := current_load ?dc + 1000\<rparr>])"
    using Cons.prems by (intro list_all_update) (simp_all add: loads_nonneg_def list_all_length)
  then have "loads_nonneg ?st"
    by (simp add: loads_nonneg_def)
  then have "loads_nonneg (fst (deploy_loop name clock (Suc k) sel ?st (deployed @ [?iid])))"
    by (rule Cons.IH)
  then show ?case by (simp add: Let_def)
qed

lemma deploy_service_nonneg:
  assumes "loads_nonneg st"
  shows "loads_nonneg (snd (deploy_service name replicas clock st))"
proof (cases "available_dcs replicas (datacenters st)")
  case (Inl e)
  with assms show ?thesis by (simp add: deploy_service_def)
next
  case (Inr sel)
  have "loads_nonneg (fst (deploy_loop name clock 0 sel st []))"
    using assms by (rule deploy_loop_nonneg)
  with Inr show ?thesis
    by (auto simp: deploy_service_def split: prod.splits)
qed

lemma scale_down_datacenters [simp]:
  "datacenters (snd (scale_down n cur st)) = datacenters st"
  by (induction n cur st rule: scale_down.induct) (auto split: sum.splits)

lemma scale_service_nonneg:
  assumes "loads_nonneg st"
  shows "loads_nonneg (snd (scale_service name target clock st))"
proof -
  let ?c = "int (length (current_instances name st))"
  have d: "loads_nonneg (snd (deploy_service name (target - ?c) clock st))"
    using assms by (rule deploy_service_nonneg)
  have s: "loads_nonneg (snd (scale_down (nat (?c - target)) (current_instances name st) st))"
    using assms by (simp add: loads_nonneg_def)
  show ?thesis
  proof (cases "deploy_service name (target - ?c) clock st")
    case (Pair r st')
    with d s assms show ?thesis
      by (cases r) (auto simp: scale_service_def Let_def)
  qed
qed

lemma apply_op_nonneg: "loads_nonneg st \<Longrightarrow> loads_nonneg (apply_op op st)"
  by (cases op)
     (simp_all add: deploy_service_nonneg scale_service_nonneg heal_overload_nonneg
        monitor_and_heal_nonneg)

lemma run_ops_nonneg: "loads_nonneg st \<Longrightarrow> loads_nonneg (run_ops ops st)"
  unfolding run_ops_def
  by (induction ops arbitrary: st) (simp_all add: apply_op_nonneg)

text \<open>
  Claim C1 (load non-negativity). From a state whose loads are all non-negative, after
  every sequence of the operations that change a load (\<open>deploy_service\<close>,
  \<open>scale_service\<close>, \<open>_heal_overload\<close> on a data centre of the registry,
  \<open>monitor_and_heal\<close>), also one cut short by an exception, every load is still
  non-negative. The only subtraction is the migration, and in every such state its
  amount lies between zero and the load present, so no subtraction asks for more than
  there is and none goes below zero.
\<close>

theorem load_never_negative:
  assumes "loads_nonneg st"
  shows "loads_nonneg (run_ops ops st) \<and>
         list_all (\<lambda>dc. 0 \<le> migration_amount dc \<and> migration_amount dc \<le> current_load dc)
           (datacenters (run_ops ops st))"
proof -
  have n: "loads_nonneg (run_ops ops st)"
    using assms by (rule run_ops_nonneg)
  then have "list_all (\<lambda>dc. 0 \<le> migration_amount dc \<and> migration_amount dc \<le> current_load dc)
           (datacenters (run_ops ops st))"
    unfolding loads_nonneg_def list_all_iff using migration_amount_bounds by blast
  with n show ?thesis by simp
qed

theorem load_never_negative_witness:
  "loads_nonneg two_pools \<and>
   loads_nonneg (run_ops [Deploy ''svc'' 1 (\<lambda>_. 5), MonitorAndHeal] two_pools) \<and>
   list_all (\<lambda>dc. 0 \<le> migration_amount dc \<and> migration_amount dc \<le> current_load dc)
     (datacenters (run_ops [Deploy ''svc'' 1 (\<lambda>_. 5), MonitorAndHeal] two_pools))"
proof -
  have h: "loads_nonneg two_pools"
    by (simp add: loads_nonneg_def two_pools_def mk_brain_def mk_dc_def)
  show ?thesis
    using h load_never_negative [OF h, of "[Deploy ''svc'' 1 (\<lambda>_. 5), MonitorAndHeal]"] by simp
qed

lemma min_from_first:
  "\<exists>pre post. b # xs = pre @ min_from f b xs # post \<and>
     (\<forall>y\<in>set pre. f (min_from f b xs) < f y) \<and> (\<forall>y\<in>set post. f (min_from f b xs) \<le> f y)"
proof (induction xs arbitrary: b)
  case Nil
  have "[b] = [] @ min_from f b [] # [] \<and>
     (\<forall>y\<in>set []. f (min_from f b []) < f y) \<and> (\<forall>y\<in>set []. f (min_from f b []) \<le> f y)"
    by simp
  then show ?case by blast
next
  case (Cons x xs)
  define b' where "b' = (if f x < f b then x else b)"
  define m where "m = min_from f b' xs"
  obtain pre post where d: "b' # xs = pre @ m # post"
    and lt: "\<forall>y\<in>set pre. f m < f y" and le: "\<forall>y\<in>set post. f m \<le> f y"
    using Cons.IH [of b'] unfolding m_def by blast
  have mb': "f m \<le> f b'"
    using d lt by (cases pre) auto
  have m: "min_from f b (x # xs) = m"
    by (simp add: m_def b'_def)
  show ?case
  proof (cases "f x < f b")
    case True
    then have "b # x # xs = (b # pre) @ m # post" "\<forall>y\<in>set (b # pre). f m < f y"
      using d lt mb' by (auto simp: b'_def)
    with le show ?thesis unfolding m by blast
  next
    case False
    then have b': "b' = b" by (simp add: b'_def)
    show ?thesis
    proof (cases pre)
      case Nil
      then have "b # x # xs = [] @ m # (x # xs)" "\<forall>y\<in>set (x # xs). f m \<le> f y"
        using d le False b' by auto
      then show ?thesis unfolding m by (metis empty_iff list.set(1))
    next
      case (Cons p pre')
      then have "b # x # xs = (b # x # pre') @ m # post" "\<forall>y\<in>set (b # x # pre'). f m < f y"
        using d lt False b' by auto
      with le show ?thesis unfolding m by blast
    qed
  qed
qed

lemma filter_eq_middle:
  "filter P ys = pre @ m # post \<Longrightarrow>
   \<exists>us vs. ys = us @ m # vs \<and> filter P us = pre \<and> filter P vs = post \<and> P m"
proof (induction ys arbitrary: pre)
  case Nil
  then show ?case by simp
next
  case (Cons y ys)
  show ?case
  proof (cases "P y")
    case False
    with Cons.prems have "filter P ys = pre @ m # post" by simp
    then obtain us vs where "ys = us @ m # vs" "filter P us = pre" "filter P vs = post" "P m"
      using Cons.IH by blast
    with False have "y # ys = (y # us) @ m # vs \<and> filter P (y # us) = pre \<and> filter P vs = post \<and> P m"
      by simp
    then show ?thesis by blast
  next
    case True
    show ?thesis
    proof (cases pre)
      case Nil
      with True Cons.prems have "y # ys = [] @ m # ys \<and> filter P [] = pre \<and> filter P ys = post \<and> P m"
        by simp
      then show ?thesis by blast
    next
      case (Cons p pre')
      with True Cons.prems have p: "p = y" and "filter P ys = pre' @ m # post" by simp_all
      then obtain us vs where "ys = us @ m # vs" "filter P us = pre'" "filter P vs = post" "P m"
        using Cons.IH by blast
      with True Cons p have "y # ys = (y # us) @ m # vs \<and> filter P (y # us) = pre \<and> filter P vs = post \<and> P m"
        by simp
      then show ?thesis by blast
    qed
  qed
qed

lemma routable_iff:
  "routable dc \<longleftrightarrow> status dc = HEALTHY \<and> 10 * current_load dc < 9 * capacity dc"
proof -
  have "rat_of_int (current_load dc) < rat_of_int (capacity dc) * (9 / 10) \<longleftrightarrow>
        rat_of_int (10 * current_load dc) < rat_of_int (9 * capacity dc)"
    by (simp add: field_simps)
  also have "\<dots> \<longleftrightarrow> 10 * current_load dc < 9 * capacity dc"
    by (simp only: of_int_less_iff)
  finally show ?thesis by (simp add: routable_def)
qed

lemma route_traffic_None:
  "route_traffic loc st = None \<longleftrightarrow> \<not> list_ex routable (datacenters st)"
proof -
  have "route_traffic loc st = None \<longleftrightarrow> filter routable (datacenters st) = []"
    by (simp add: route_traffic_def py_min_def split: list.splits)
  then show ?thesis
    by (simp add: filter_empty_conv list_ex_iff)
qed

lemma route_traffic_Some:
  assumes "route_traffic loc st = Some p"
  shows "\<exists>pre m post. datacenters st = pre @ m # post \<and> id_dc m = p \<and> routable m \<and>
           (\<forall>y\<in>set pre. routable y \<longrightarrow> latency_ms m < latency_ms y) \<and>
           (\<forall>y\<in>set post. routable y \<longrightarrow> latency_ms m \<le> latency_ms y)"
proof -
  from assms obtain x rest where f: "filter routable (datacenters st) = x # rest"
    and p: "p = id_dc (min_from latency_ms x rest)"
    by (auto simp: route_traffic_def py_min_def split: list.splits)
  define m where "m = min_from latency_ms x rest"
  obtain pre post where d: "x # rest = pre @ m # post"
    and lt: "\<forall>y\<in>set pre. latency_ms m < latency_ms y"
    and le: "\<forall>y\<in>set post. latency_ms m \<le> latency_ms y"
    using min_from_first [of x rest latency_ms] unfolding m_def by blast
  from f d obtain us vs where u: "datacenters st = us @ m # vs" "filter routable us = pre"
    "filter routable vs = post" "routable m"
    using filter_eq_middle [of routable "datacenters st" pre m post] by auto
  have "\<forall>y\<in>set us. routable y \<longrightarrow> latency_ms m < latency_ms y"
    using lt u(2) by auto
  moreover have "\<forall>y\<in>set vs. routable y \<longrightarrow> latency_ms m \<le> latency_ms y"
    using le u(3) by auto
  ultimately show ?thesis using u(1,4) p m_def by blast
qed




subsection \<open>What one step of the first loop changes\<close>

lemma add_load_frame:
  assumes "\<And>dc x. f (dc\<lparr>current_load := x\<rparr>) = f dc"
  shows "map f (add_load i d dcs) = map f dcs"
proof -
  have "map f (add_load i d dcs) = (map f dcs)[i := f (dcs ! i)]"
    by (simp add: add_load_def map_update assms)
  then show ?thesis by (simp add: map_update_same)
qed

lemma heal_overload_Returned:
  assumes "heal_overload i st = (Returned u, st')"
  obtains t where "target_dc i (datacenters st) = Inr t"
    and "st' = st\<lparr>datacenters :=
               add_load t (migration_amount (datacenters st ! i))
                 (add_load i (- migration_amount (datacenters st ! i)) (datacenters st)),
             healing_actions := healing_actions st + 1\<rparr>"
  using assms by (auto simp: heal_overload_def Let_def split: sum.splits)

lemma heal_overload_Raised:
  "heal_overload i st = (Raised e, st') \<Longrightarrow> target_dc i (datacenters st) = Inl e \<and> st' = st"
  by (auto simp: heal_overload_def Let_def split: sum.splits)

lemma heal_overload_target:
  "target_dc i (datacenters st) = Inr t \<Longrightarrow>
   heal_overload i st =
     (Returned (),
      st\<lparr>datacenters :=
               add_load t (migration_amount (datacenters st ! i))
                 (add_load i (- migration_amount (datacenters st ! i)) (datacenters st)),
          healing_actions := healing_actions st + 1\<rparr>)"
  by (simp add: heal_overload_def Let_def)

lemma heal_overload_frame:
  assumes "\<And>dc x. f (dc\<lparr>current_load := x\<rparr>) = f dc"
  shows "map f (datacenters (snd (heal_overload i st))) = map f (datacenters st)"
  by (simp add: heal_overload_def Let_def add_load_frame [of f, OF assms] split: sum.splits)

lemma heal_overload_services [simp]:
  "services (snd (heal_overload i st)) = services st"
  by (simp add: heal_overload_def Let_def split: sum.splits)

lemma heal_datacenter_frame:
  assumes "\<And>dc x y. f (dc\<lparr>status := x, uptime := y\<rparr>) = f dc"
  shows "map f (datacenters (heal_datacenter i st)) = map f (datacenters st)"
  by (simp add: heal_datacenter_def map_update assms map_update_same)

lemma heal_datacenter_services [simp]:
  "services (heal_datacenter i st) = services st"
  by (simp add: heal_datacenter_def)

lemma check_datacenter_eq:
  "check_datacenter i st =
     (case fst (after_overload_check i st) of
        Raised e \<Rightarrow> (Raised e, snd (after_overload_check i st))
      | Returned u \<Rightarrow> (Returned (), after_status_check i (snd (after_overload_check i st))))"
  by (cases "heal_overload i st"; cases "fst (heal_overload i st)")
     (auto simp: check_datacenter_def after_overload_check_def after_status_check_def)

lemma after_overload_check_frame:
  assumes "\<And>dc x. f (dc\<lparr>current_load := x\<rparr>) = f dc"
  shows "map f (datacenters (snd (after_overload_check i st))) = map f (datacenters st)"
  by (simp add: after_overload_check_def heal_overload_frame [of f, OF assms])

lemma after_status_check_frame:
  assumes "\<And>dc x y. f (dc\<lparr>status := x, uptime := y\<rparr>) = f dc"
  shows "map f (datacenters (after_status_check i st)) = map f (datacenters st)"
  by (simp add: after_status_check_def heal_datacenter_frame [of f, OF assms])

lemma check_datacenter_frame:
  assumes "\<And>dc x. f (dc\<lparr>current_load := x\<rparr>) = f dc"
    and "\<And>dc x y. f (dc\<lparr>status := x, uptime := y\<rparr>) = f dc"
  shows "map f (datacenters (snd (check_datacenter i st))) = map f (datacenters st)"
  by (cases "fst (after_overload_check i st)")
     (simp_all add: check_datacenter_eq after_overload_check_frame [of f, OF assms(1)]
        after_status_check_frame [of f, OF assms(2)])

lemma check_datacenters_frame:
  assumes "\<And>dc x. f (dc\<lparr>current_load := x\<rparr>) = f dc"
    and "\<And>dc x y. f (dc\<lparr>status := x, uptime := y\<rparr>) = f dc"
  shows "map f (datacenters (snd (check_datacenters is st))) = map f (datacenters st)"
proof (induction "is" arbitrary: st)
  case Nil
  then show ?case by simp
next
  case (Cons i rest)
  have s: "map f (datacenters (snd (check_datacenter i st))) = map f (datacenters st)"
    by (rule check_datacenter_frame [of f, OF assms])
  show ?case
  proof (cases "check_datacenter i st")
    case (Pair r st')
    with s Cons.IH [of st'] show ?thesis by (cases r) auto
  qed
qed

lemma check_datacenter_services [simp]:
  "services (snd (check_datacenter i st)) = services st"
  by (cases "fst (after_overload_check i st)")
     (simp_all add: check_datacenter_eq after_overload_check_def after_status_check_def)

lemma check_datacenters_services [simp]:
  "services (snd (check_datacenters is st)) = services st"
proof (induction "is" arbitrary: st)
  case Nil
  then show ?case by simp
next
  case (Cons i rest)
  have s: "services (snd (check_datacenter i st)) = services st" by simp
  show ?case
  proof (cases "check_datacenter i st")
    case (Pair r st')
    with s Cons.IH [of st'] show ?thesis by (cases r) auto
  qed
qed

lemma check_datacenters_append:
  "check_datacenters (xs @ ys) st =
     (case fst (check_datacenters xs st) of
        Raised e \<Rightarrow> (Raised e, snd (check_datacenters xs st))
      | Returned u \<Rightarrow> check_datacenters ys (snd (check_datacenters xs st)))"
proof (induction xs arbitrary: st)
  case Nil
  then show ?case by simp
next
  case (Cons i rest)
  show ?case
  proof (cases "check_datacenter i st")
    case (Pair r st')
    show ?thesis
    proof (cases r)
      case (Raised e)
      with Pair show ?thesis by simp
    next
      case (Returned u)
      with Pair have "check_datacenters (i # rest) st = check_datacenters rest st'"
        and "check_datacenters ((i # rest) @ ys) st = check_datacenters (rest @ ys) st'"
        by simp_all
      then show ?thesis by (simp only: Cons.IH [of st'])
    qed
  qed
qed

subsection \<open>When the cycle raises and when it does not\<close>

lemma has_two_ids_map:
  "has_two_ids dcs \<longleftrightarrow> (\<exists>a\<in>set (map id_dc dcs). \<exists>b\<in>set (map id_dc dcs). a \<noteq> b)"
  by (auto simp: has_two_ids_def list_ex_iff)

lemma registry_safe_map:
  "registry_safe dcs \<longleftrightarrow>
     (\<forall>c\<in>set (map capacity dcs). c \<noteq> 0) \<and>
     (\<exists>a\<in>set (map id_dc dcs). \<exists>b\<in>set (map id_dc dcs). a \<noteq> b)"
  by (auto simp: registry_safe_def has_two_ids_map list_all_iff)

lemma registry_safe_cong:
  "map capacity dcs' = map capacity dcs \<Longrightarrow> map id_dc dcs' = map id_dc dcs \<Longrightarrow>
   registry_safe dcs' = registry_safe dcs"
  by (simp only: registry_safe_map)

lemma other_dcs_nonempty:
  assumes "has_two_ids dcs" and "i < length dcs"
  shows "other_dcs i dcs \<noteq> []"
proof -
  from assms(1) obtain a b where ab: "a \<in> set dcs" "b \<in> set dcs" "id_dc a \<noteq> id_dc b"
    by (auto simp: has_two_ids_def list_ex_iff)
  then obtain c where c: "c \<in> set dcs" "id_dc c \<noteq> id_dc (dcs ! i)"
    by (cases "id_dc a = id_dc (dcs ! i)") auto
  then obtain j where "j < length dcs" "dcs ! j = c"
    by (auto simp: in_set_conv_nth)
  with c have "j \<in> set (other_dcs i dcs)"
    by (simp add: other_dcs_def)
  then show ?thesis by auto
qed

lemma target_dc_defined:
  assumes "registry_safe dcs" and "i < length dcs"
  shows "\<exists>t. target_dc i dcs = Inr t"
proof -
  have ne: "other_dcs i dcs \<noteq> []"
    using assms by (simp add: registry_safe_def other_dcs_nonempty)
  have "\<not> list_ex (\<lambda>j. capacity (dcs ! j) = 0) (other_dcs i dcs)"
    using assms(1) by (auto simp: registry_safe_def list_ex_iff list_all_iff other_dcs_def)
  with ne show ?thesis
    by (auto simp: target_dc_def Let_def py_min_def split: list.splits)
qed

lemma check_datacenter_safe:
  assumes "registry_safe (datacenters st)" and "i < length (datacenters st)"
  shows "fst (check_datacenter i st) = Returned ()"
proof -
  obtain t where "target_dc i (datacenters st) = Inr t"
    using target_dc_defined [OF assms] by blast
  then have "fst (heal_overload i st) = Returned ()"
    by (simp add: heal_overload_target)
  then have "fst (after_overload_check i st) = Returned ()"
    by (simp add: after_overload_check_def)
  then show ?thesis by (simp add: check_datacenter_eq)
qed

lemma check_datacenter_keeps_safe:
  "registry_safe (datacenters (snd (check_datacenter i st))) = registry_safe (datacenters st)"
  by (rule registry_safe_cong) (simp_all add: check_datacenter_frame)

lemma check_datacenters_safe:
  "registry_safe (datacenters st) \<Longrightarrow> \<forall>i\<in>set is. i < length (datacenters st) \<Longrightarrow>
   fst (check_datacenters is st) = Returned ()"
proof (induction "is" arbitrary: st)
  case Nil
  then show ?case by simp
next
  case (Cons i rest)
  have r: "fst (check_datacenter i st) = Returned ()"
    using Cons.prems by (simp add: check_datacenter_safe)
  have s: "registry_safe (datacenters (snd (check_datacenter i st)))"
    using Cons.prems(1) by (simp only: check_datacenter_keeps_safe)
  have l: "length (datacenters (snd (check_datacenter i st))) = length (datacenters st)"
    by simp
  show ?case
  proof (cases "check_datacenter i st")
    case (Pair r' st')
    with r s l Cons.prems(2) Cons.IH [of st'] show ?thesis by auto
  qed
qed

text \<open>A data centre that is neither overloaded nor unhealthy is left alone.\<close>

lemma check_datacenter_idle:
  "\<not> is_overloaded (datacenters st ! i) \<Longrightarrow> status (datacenters st ! i) = HEALTHY \<Longrightarrow>
   check_datacenter i st = (Returned (), st)"
  by (simp add: check_datacenter_eq after_overload_check_def after_status_check_def)

lemma check_datacenter_not_overloaded:
  "\<not> is_overloaded (datacenters st ! i) \<Longrightarrow>
   check_datacenter i st = (Returned (), after_status_check i st)"
  by (simp add: check_datacenter_eq after_overload_check_def)

lemma is_overloaded_proj:
  "is_overloaded dc \<longleftrightarrow>
   (case (current_load dc, capacity dc) of (l, c) \<Rightarrow> rat_of_int l > rat_of_int c * (19 / 20))"
  by (simp add: is_overloaded_def)

lemma list_ex_overloaded_cong:
  assumes "map (\<lambda>dc. (current_load dc, capacity dc)) dcs' = map (\<lambda>dc. (current_load dc, capacity dc)) dcs"
  shows "list_ex is_overloaded dcs' = list_ex is_overloaded dcs"
proof -
  have "list_ex is_overloaded xs =
        list_ex (\<lambda>(l, c). rat_of_int l > rat_of_int c * (19 / 20))
          (map (\<lambda>dc. (current_load dc, capacity dc)) xs)" for xs
    by (simp add: list_ex_iff is_overloaded_def)
  then show ?thesis by (simp only: assms)
qed

lemma check_datacenters_none_overloaded:
  "\<not> list_ex is_overloaded (datacenters st) \<Longrightarrow> \<forall>i\<in>set is. i < length (datacenters st) \<Longrightarrow>
   fst (check_datacenters is st) = Returned () \<and>
   map current_load (datacenters (snd (check_datacenters is st))) = map current_load (datacenters st)"
proof (induction "is" arbitrary: st)
  case Nil
  then show ?case by simp
next
  case (Cons i rest)
  have "\<not> is_overloaded (datacenters st ! i)"
    using Cons.prems by (auto simp: list_ex_iff)
  then have c: "check_datacenter i st = (Returned (), after_status_check i st)"
    by (rule check_datacenter_not_overloaded)
  have "\<not> list_ex is_overloaded (datacenters (after_status_check i st))"
    using Cons.prems(1)
    by (simp add: list_ex_overloaded_cong [of "datacenters (after_status_check i st)" "datacenters st"]
          after_status_check_frame)
  moreover have l: "length (datacenters (after_status_check i st)) = length (datacenters st)"
    by (simp add: after_status_check_def)
  ultimately have "fst (check_datacenters rest (after_status_check i st)) = Returned () \<and>
     map current_load (datacenters (snd (check_datacenters rest (after_status_check i st)))) =
     map current_load (datacenters (after_status_check i st))"
    using Cons.prems(2) by (intro Cons.IH) simp_all
  then show ?case
    using c by (simp add: after_status_check_frame)
qed

subsection \<open>Status, uptime and instances after the cycle\<close>

lemma recovered_idem [simp]: "recovered (recovered su) = recovered su"
  by (simp add: recovered_def)

lemma after_status_check_su:
  "i < length (datacenters st) \<Longrightarrow>
   map status_uptime (datacenters (after_status_check i st)) =
   (map status_uptime (datacenters st))[i := recovered (status_uptime (datacenters st ! i))]"
proof (cases "status (datacenters st ! i) = HEALTHY")
  case True
  then have "recovered (status_uptime (datacenters st ! i)) = status_uptime (datacenters st ! i)"
    by (simp add: recovered_def status_uptime_def)
  with True show ?thesis
    by (simp add: after_status_check_def map_update_same)
next
  case False
  then show ?thesis
    by (simp add: after_status_check_def heal_datacenter_def map_update status_uptime_def
          recovered_def)
qed

lemma check_datacenter_su:
  assumes "i < length (datacenters st)" and "fst (check_datacenter i st) = Returned u"
  shows "map status_uptime (datacenters (snd (check_datacenter i st))) =
         (map status_uptime (datacenters st))[i := recovered (status_uptime (datacenters st ! i))]"
proof -
  let ?st1 = "snd (after_overload_check i st)"
  have f: "map status_uptime (datacenters ?st1) = map status_uptime (datacenters st)"
    by (rule after_overload_check_frame) (simp add: status_uptime_def)
  then have l: "length (datacenters ?st1) = length (datacenters st)"
    by (metis length_map)
  from f assms(1) l have n: "status_uptime (datacenters ?st1 ! i) = status_uptime (datacenters st ! i)"
    by (metis nth_map)
  from assms(2) have "snd (check_datacenter i st) = after_status_check i ?st1"
    by (cases "fst (after_overload_check i st)") (simp_all add: check_datacenter_eq)
  then show ?thesis
    using after_status_check_su [of i ?st1] assms(1) l f n by simp
qed

lemma check_datacenters_su:
  "\<forall>i\<in>set is. i < length (datacenters st) \<Longrightarrow> fst (check_datacenters is st) = Returned u \<Longrightarrow>
   j < length (datacenters st) \<Longrightarrow>
   status_uptime (datacenters (snd (check_datacenters is st)) ! j) =
   (if j \<in> set is then recovered (status_uptime (datacenters st ! j))
    else status_uptime (datacenters st ! j))"
proof (induction "is" arbitrary: st)
  case Nil
  then show ?case by simp
next
  case (Cons i rest)
  obtain r st' where c: "check_datacenter i st = (r, st')"
    by (cases "check_datacenter i st")
  with Cons.prems(2) have r: "r = Returned ()"
    by (cases r) auto
  have l: "length (datacenters st') = length (datacenters st)"
    using check_datacenter_length [of i st] c by simp
  have i: "i < length (datacenters st)"
    using Cons.prems(1) by simp
  have "map status_uptime (datacenters st') =
        (map status_uptime (datacenters st))[i := recovered (status_uptime (datacenters st ! i))]"
    using check_datacenter_su [of i st "()"] i c r by simp
  then have "map status_uptime (datacenters st') ! j =
        (map status_uptime (datacenters st))[i := recovered (status_uptime (datacenters st ! i))] ! j"
    by simp
  then have s: "status_uptime (datacenters st' ! j) =
        (if j = i then recovered (status_uptime (datacenters st ! j))
         else status_uptime (datacenters st ! j))"
    using Cons.prems(3) l by (simp add: nth_list_update)
  have e: "check_datacenters (i # rest) st = check_datacenters rest st'"
    using c r by simp
  have "status_uptime (datacenters (snd (check_datacenters rest st')) ! j) =
        (if j \<in> set rest then recovered (status_uptime (datacenters st' ! j))
         else status_uptime (datacenters st' ! j))"
    using Cons.prems l e by (intro Cons.IH) simp_all
  moreover have "snd (check_datacenters (i # rest) st) = snd (check_datacenters rest st')"
    by (simp only: e)
  ultimately show ?case
    using s by (cases "j = i") simp_all
qed

lemma check_services_eq:
  "check_services svcs n =
     (map (\<lambda>kv. (fst kv, checked_instance (snd kv))) svcs,
      n + int (length (filter (\<lambda>kv. health (snd kv) < 1 / 2) svcs)))"
  by (induction svcs n rule: check_services.induct) (simp_all add: checked_instance_def)

lemma monitor_and_heal_Returned:
  assumes "fst (monitor_and_heal st) = Returned u"
  shows "fst (check_datacenters [0..<length (datacenters st)] st) = Returned ()"
    and "datacenters (snd (monitor_and_heal st)) =
         datacenters (snd (check_datacenters [0..<length (datacenters st)] st))"
    and "services (snd (monitor_and_heal st)) =
         map (\<lambda>kv. (fst kv, checked_instance (snd kv))) (services st)"
proof -
  obtain r st' where c: "check_datacenters [0..<length (datacenters st)] st = (r, st')"
    by (cases "check_datacenters [0..<length (datacenters st)] st")
  with assms have r: "r = Returned ()"
    by (cases r) (auto simp: monitor_and_heal_def)
  have s: "services st' = services st"
    using check_datacenters_services [of "[0..<length (datacenters st)]" st] c by simp
  show "fst (check_datacenters [0..<length (datacenters st)] st) = Returned ()"
    using c r by simp
  show "datacenters (snd (monitor_and_heal st)) =
         datacenters (snd (check_datacenters [0..<length (datacenters st)] st))"
    using c r by (simp add: monitor_and_heal_def check_services_eq)
  show "services (snd (monitor_and_heal st)) =
         map (\<lambda>kv. (fst kv, checked_instance (snd kv))) (services st)"
    using c r s by (simp add: monitor_and_heal_def check_services_eq)
qed

lemma monitor_and_heal_fst:
  "fst (monitor_and_heal st) = fst (check_datacenters [0..<length (datacenters st)] st)"
proof (cases "check_datacenters [0..<length (datacenters st)] st")
  case (Pair r st')
  then show ?thesis
    by (cases r) (simp_all add: monitor_and_heal_def check_services_eq)
qed

lemma monitor_and_heal_su:
  assumes "fst (monitor_and_heal st) = Returned u" and "j < length (datacenters st)"
  shows "status_uptime (datacenters (snd (monitor_and_heal st)) ! j) =
         recovered (status_uptime (datacenters st ! j))"
proof -
  have "status_uptime (datacenters (snd (check_datacenters [0..<length (datacenters st)] st)) ! j) =
        (if j \<in> set [0..<length (datacenters st)] then recovered (status_uptime (datacenters st ! j))
         else status_uptime (datacenters st ! j))"
    using monitor_and_heal_Returned(1) [OF assms(1)] assms(2)
    by (intro check_datacenters_su) simp_all
  then show ?thesis
    using assms(2) by (simp add: monitor_and_heal_Returned(2) [OF assms(1)])
qed

lemma monitor_and_heal_length [simp]:
  "length (datacenters (snd (monitor_and_heal st))) = length (datacenters st)"
proof (cases "check_datacenters [0..<length (datacenters st)] st")
  case (Pair r st')
  then have "length (datacenters st') = length (datacenters st)"
    using check_datacenters_length [of "[0..<length (datacenters st)]" st] by simp
  with Pair show ?thesis
    by (cases r) (simp_all add: monitor_and_heal_def check_services_eq)
qed

lemma monitor_and_heal_all_healthy:
  assumes "fst (monitor_and_heal st) = Returned u"
  shows "list_all (\<lambda>dc. status dc = HEALTHY) (datacenters (snd (monitor_and_heal st)))"
proof -
  have "status (datacenters (snd (monitor_and_heal st)) ! j) = HEALTHY"
    if "j < length (datacenters st)" for j
  proof -
    have "fst (status_uptime (datacenters (snd (monitor_and_heal st)) ! j)) = HEALTHY"
      by (simp add: monitor_and_heal_su [OF assms that] recovered_def)
    then show ?thesis by (simp add: status_uptime_def)
  qed
  then show ?thesis by (simp add: list_all_length)
qed

lemma monitor_and_heal_idle:
  assumes "already_healthy st"
  shows "monitor_and_heal st = (Returned (), st)"
proof -
  have dcs: "\<forall>i<length (datacenters st). status (datacenters st ! i) = HEALTHY \<and>
              \<not> is_overloaded (datacenters st ! i)"
    using assms by (simp add: already_healthy_def list_all_length)
  have loop: "\<forall>i\<in>set is. i < length (datacenters st) \<Longrightarrow>
              check_datacenters is st = (Returned (), st)" for "is"
    using dcs by (induction "is") (simp_all add: check_datacenter_idle)
  have "filter (\<lambda>kv. health (snd kv) < 1 / 2) (services st) = []"
    using assms by (auto simp: already_healthy_def list_all_iff filter_empty_conv)
  moreover have "map (\<lambda>kv. (fst kv, checked_instance (snd kv))) (services st) = services st"
    using assms by (intro map_idI) (auto simp: already_healthy_def list_all_iff checked_instance_def)
  ultimately show ?thesis
    using loop [of "[0..<length (datacenters st)]"]
    by (simp add: monitor_and_heal_def check_services_eq)
qed







subsection \<open>The migration step\<close>

lemma is_overloaded_iff: "is_overloaded dc \<longleftrightarrow> 19 * capacity dc < 20 * current_load dc"
proof -
  have "rat_of_int (capacity dc) * (19 / 20) < rat_of_int (current_load dc) \<longleftrightarrow>
        rat_of_int (19 * capacity dc) < rat_of_int (20 * current_load dc)"
    by (simp add: field_simps)
  also have "\<dots> \<longleftrightarrow> 19 * capacity dc < 20 * current_load dc"
    by (simp only: of_int_less_iff)
  finally show ?thesis by (simp add: is_overloaded_def)
qed

lemma other_dcs_sorted: "sorted_wrt (<) (other_dcs i dcs)"
  by (simp add: other_dcs_def sorted_wrt_filter)

lemma target_dc_min:
  assumes "target_dc i dcs = Inr t" and "j < length dcs" and "id_dc (dcs ! j) \<noteq> id_dc (dcs ! i)"
  shows "load_ratio (dcs ! t) \<le> load_ratio (dcs ! j) \<and>
         (j < t \<longrightarrow> load_ratio (dcs ! t) < load_ratio (dcs ! j))"
proof -
  let ?f = "\<lambda>j. load_ratio (dcs ! j)"
  from assms(1) obtain x rest where c: "other_dcs i dcs = x # rest" and t: "t = min_from ?f x rest"
    by (auto simp: target_dc_def Let_def py_min_def split: if_splits list.splits)
  obtain pre post where d: "x # rest = pre @ t # post"
    and lt: "\<forall>y\<in>set pre. ?f t < ?f y" and le: "\<forall>y\<in>set post. ?f t \<le> ?f y"
    using min_from_first [of x rest ?f] unfolding t by blast
  have "sorted_wrt (<) (pre @ t # post)"
    using other_dcs_sorted [of i dcs] c d by simp
  then have post: "\<forall>y\<in>set post. t < y"
    by (simp add: sorted_wrt_append)
  have "j \<in> set (other_dcs i dcs)"
    using assms(2,3) by (simp add: other_dcs_def)
  then have "j \<in> set pre \<or> j = t \<or> j \<in> set post"
    using c d by auto
  with lt le post show ?thesis by force
qed

lemma heal_overload_loads:
  assumes "target_dc i (datacenters st) = Inr t" and "i < length (datacenters st)"
    and "j < length (datacenters st)"
  shows "current_load (datacenters (snd (heal_overload i st)) ! j) =
         (if j = i then current_load (datacenters st ! i) - migration_amount (datacenters st ! i)
          else if j = t then current_load (datacenters st ! t) + migration_amount (datacenters st ! i)
          else current_load (datacenters st ! j))"
proof -
  have t: "t < length (datacenters st)" "t \<noteq> i"
    using assms(1) by (simp_all add: target_dc_range target_dc_neq)
  show ?thesis
    using assms t by (simp add: heal_overload_target nth_add_load)
qed

lemma after_status_check_load [simp]:
  "map current_load (datacenters (after_status_check i st)) = map current_load (datacenters st)"
  by (rule after_status_check_frame) simp

lemma after_status_check_length [simp]:
  "length (datacenters (after_status_check i st)) = length (datacenters st)"
  by (simp add: after_status_check_def)

lemma nth_after_status_check_load:
  "j < length (datacenters st) \<Longrightarrow>
   current_load (datacenters (after_status_check i st) ! j) = current_load (datacenters st ! j)"
  by (metis after_status_check_load after_status_check_length nth_map)

lemma check_datacenter_loads:
  assumes "is_overloaded (datacenters st ! i)" and "target_dc i (datacenters st) = Inr t"
    and "i < length (datacenters st)" and "j < length (datacenters st)"
  shows "current_load (datacenters (snd (check_datacenter i st)) ! j) =
         (if j = i then current_load (datacenters st ! i) - migration_amount (datacenters st ! i)
          else if j = t then current_load (datacenters st ! t) + migration_amount (datacenters st ! i)
          else current_load (datacenters st ! j))"
proof -
  have a: "after_overload_check i st = heal_overload i st"
    using assms(1) by (simp add: after_overload_check_def)
  have r: "fst (heal_overload i st) = Returned ()"
    using assms(2) by (simp add: heal_overload_target)
  have "snd (check_datacenter i st) = after_status_check i (snd (heal_overload i st))"
    using a r by (simp add: check_datacenter_eq)
  then show ?thesis
    using heal_overload_loads [OF assms(2,3,4)] assms(4)
    by (simp add: nth_after_status_check_load)
qed

lemma check_datacenter_load_mono:
  assumes "loads_nonneg st" and "i < length (datacenters st)" and "j < length (datacenters st)"
    and "j \<noteq> i"
  shows "current_load (datacenters st ! j) \<le> current_load (datacenters (snd (check_datacenter i st)) ! j)"
proof (cases "is_overloaded (datacenters st ! i)")
  case False
  then show ?thesis
    using assms(3) by (simp add: check_datacenter_not_overloaded nth_after_status_check_load)
next
  case True
  show ?thesis
  proof (cases "target_dc i (datacenters st)")
    case (Inl e)
    then have "check_datacenter i st = (Raised e, st)"
      using True by (simp add: check_datacenter_eq after_overload_check_def heal_overload_def)
    then show ?thesis by simp
  next
    case (Inr t)
    have "0 \<le> current_load (datacenters st ! i)"
      using assms(1,2) by (simp add: loads_nonneg_def list_all_length)
    then have "0 \<le> migration_amount (datacenters st ! i)"
      by (simp add: migration_amount_bounds)
    then show ?thesis
      using check_datacenter_loads [OF True Inr assms(2,3)] assms(4) by simp
  qed
qed

lemma check_datacenters_load_mono:
  "loads_nonneg st \<Longrightarrow> \<forall>k\<in>set is. k < length (datacenters st) \<and> k \<noteq> j \<Longrightarrow>
   j < length (datacenters st) \<Longrightarrow>
   current_load (datacenters st ! j) \<le> current_load (datacenters (snd (check_datacenters is st)) ! j)"
proof (induction "is" arbitrary: st)
  case Nil
  then show ?case by simp
next
  case (Cons i rest)
  obtain r st' where c: "check_datacenter i st = (r, st')"
    by (cases "check_datacenter i st")
  have l: "length (datacenters st') = length (datacenters st)"
    using check_datacenter_length [of i st] c by simp
  have n: "loads_nonneg st'"
    using check_datacenter_nonneg [of st i] Cons.prems c by simp
  have m: "current_load (datacenters st ! j) \<le> current_load (datacenters st' ! j)"
    using check_datacenter_load_mono [of st i j] Cons.prems c by simp
  show ?case
  proof (cases r)
    case (Raised e)
    with c m show ?thesis by simp
  next
    case (Returned u)
    have "current_load (datacenters st' ! j) \<le>
          current_load (datacenters (snd (check_datacenters rest st')) ! j)"
      using n l Cons.prems by (intro Cons.IH) simp_all
    with m c Returned show ?thesis by simp
  qed
qed

lemma state_at_visit_length [simp]:
  "length (datacenters (state_at_visit i st)) = length (datacenters st)"
  by (simp add: state_at_visit_def)

lemma state_at_visit_capacity:
  "map capacity (datacenters (state_at_visit i st)) = map capacity (datacenters st)"
  unfolding state_at_visit_def by (rule check_datacenters_frame) simp_all

lemma state_at_visit_id:
  "map id_dc (datacenters (state_at_visit i st)) = map id_dc (datacenters st)"
  unfolding state_at_visit_def by (rule check_datacenters_frame) simp_all

lemma state_at_visit_overloaded:
  assumes "loads_nonneg st" and "i < length (datacenters st)"
    and "is_overloaded (datacenters st ! i)"
  shows "is_overloaded (datacenters (state_at_visit i st) ! i)"
proof -
  have "current_load (datacenters st ! i) \<le> current_load (datacenters (state_at_visit i st) ! i)"
    unfolding state_at_visit_def using assms(1,2)
    by (intro check_datacenters_load_mono) simp_all
  moreover have "capacity (datacenters (state_at_visit i st) ! i) = capacity (datacenters st ! i)"
    using arg_cong [OF state_at_visit_capacity [of i st], of "\<lambda>xs. xs ! i"] assms(2) by simp
  ultimately show ?thesis
    using assms(3) by (simp add: is_overloaded_iff)
qed

lemma cycle_split:
  assumes "registry_safe (datacenters st)" and "i < length (datacenters st)"
  shows "check_datacenters [0..<length (datacenters st)] st =
         check_datacenters [Suc i..<length (datacenters st)]
           (snd (check_datacenter i (state_at_visit i st)))"
proof -
  let ?n = "length (datacenters st)"
  let ?v = "state_at_visit i st"
  have u: "[0..<?n] = [0..<i] @ ([i] @ [Suc i..<?n])"
    using assms(2) by (metis append_Cons append_Nil less_imp_le_nat upt_add_eq_append upt_conv_Cons zero_le le_add_diff_inverse)
  have p: "fst (check_datacenters [0..<i] st) = Returned ()"
    using assms by (intro check_datacenters_safe) simp_all
  have s: "registry_safe (datacenters ?v)"
    using assms(1) registry_safe_cong [OF state_at_visit_capacity state_at_visit_id] by simp
  have q: "fst (check_datacenter i ?v) = Returned ()"
    using s assms(2) by (intro check_datacenter_safe) simp_all
  have "check_datacenters ([i] @ [Suc i..<?n]) ?v =
        check_datacenters [Suc i..<?n] (snd (check_datacenter i ?v))"
    using q by (cases "check_datacenter i ?v") simp
  then show ?thesis
    unfolding u by (simp only: check_datacenters_append [of "[0..<i]"] p state_at_visit_def result.case)
qed

lemma div5_bound: "(L::int) - L div 5 \<le> C \<longleftrightarrow> 4 * L \<le> 5 * C"
  by presburger






subsection \<open>Scaling down\<close>

lemma filter_neq_last:
  "distinct ys \<Longrightarrow> ys \<noteq> [] \<Longrightarrow> filter (\<lambda>y. y \<noteq> last ys) ys = butlast ys"
proof -
  assume d: "distinct ys" and n: "ys \<noteq> []"
  then have e: "ys = butlast ys @ [last ys]" by simp
  then have "last ys \<notin> set (butlast ys)"
    using d by (metis distinct_append distinct.simps(2) disjoint_iff list.set_intros(1))
  then have "filter (\<lambda>y. y \<noteq> last ys) (butlast ys @ [last ys]) = butlast ys"
    by (auto simp: filter_id_conv)
  with e show ?thesis by simp
qed

lemma mem_filterD: "x \<in> set (filter Q xs) \<Longrightarrow> x \<in> set xs \<and> Q x"
  by simp

lemma filter_key_neq:
  assumes "distinct (map fst kvs)" and "e \<in> set kvs"
  shows "filter (\<lambda>kv. fst kv \<noteq> fst e) kvs = filter (\<lambda>kv. kv \<noteq> e) kvs"
proof (rule filter_cong [OF refl])
  fix kv
  assume "kv \<in> set kvs"
  with assms show "(fst kv \<noteq> fst e) = (kv \<noteq> e)"
    by (metis distinct_map inj_onD)
qed

lemma scale_down_step:
  assumes wf: "services_wf svcs"
    and cur: "cur = filter P (map snd svcs)" and ne: "cur \<noteq> []"
  shows "\<exists>svcs'. dict_del svcs (id_svc (last cur)) = Inr svcs' \<and> services_wf svcs' \<and>
           filter P (map snd svcs') = butlast cur \<and>
           filter (\<lambda>kv. \<not> P (snd kv)) svcs' = filter (\<lambda>kv. \<not> P (snd kv)) svcs"
proof -
  let ?E = "filter (\<lambda>kv. P (snd kv)) svcs"
  have c: "cur = map snd ?E"
    by (simp add: cur filter_map comp_def)
  with ne have En: "?E \<noteq> []" by auto
  let ?e = "last ?E"
  have eE: "?e \<in> set ?E" using En by (rule last_in_set)
  have es: "?e \<in> set svcs" and eP: "P (snd ?e)"
    using mem_filterD [OF eE] by simp_all
  have lc: "last cur = snd ?e"
    using c En by (simp add: last_map)
  have key: "id_svc (last cur) = fst ?e"
    using wf es lc by (auto simp: services_wf_def list_all_iff)
  let ?svcs' = "filter (\<lambda>kv. fst kv \<noteq> fst ?e) svcs"
  have d: "dict_del svcs (id_svc (last cur)) = Inr ?svcs'"
    using es key by (auto simp: dict_del_def)
  have f: "?svcs' = filter (\<lambda>kv. kv \<noteq> ?e) svcs"
    using wf es by (intro filter_key_neq) (simp_all add: services_wf_def)
  have wf': "services_wf ?svcs'"
    using wf by (auto simp: services_wf_def distinct_map_filter list_all_iff)
  have ds: "distinct svcs"
    using wf by (simp add: services_wf_def distinct_map)
  have "filter (\<lambda>kv. P (snd kv)) ?svcs' = filter (\<lambda>kv. kv \<noteq> ?e) ?E"
    unfolding f by (simp add: conj_commute)
  also have "\<dots> = butlast ?E"
    using ds En by (intro filter_neq_last) simp_all
  finally have "filter P (map snd ?svcs') = butlast cur"
    by (simp add: c filter_map comp_def map_butlast)
  moreover have "filter (\<lambda>kv. \<not> P (snd kv)) ?svcs' = filter (\<lambda>kv. \<not> P (snd kv)) svcs"
    unfolding f using eP by (auto intro: filter_cong)
  ultimately show ?thesis using d wf' by blast
qed

lemma scale_down_effect:
  "services_wf (services st) \<Longrightarrow> cur = current_instances name st \<Longrightarrow>
   fst (scale_down n cur st) = Returned () \<and>
   datacenters (snd (scale_down n cur st)) = datacenters st \<and>
   healing_actions (snd (scale_down n cur st)) = healing_actions st \<and>
   services_wf (services (snd (scale_down n cur st))) \<and>
   current_instances name (snd (scale_down n cur st)) = take (length cur - n) cur \<and>
   filter (\<lambda>kv. service_name (snd kv) \<noteq> name) (services (snd (scale_down n cur st))) =
     filter (\<lambda>kv. service_name (snd kv) \<noteq> name) (services st)"
proof (induction n arbitrary: st cur)
  case 0
  then show ?case by simp
next
  case (Suc n)
  show ?case
  proof (cases "cur = []")
    case True
    with Suc.IH [of st cur] Suc.prems show ?thesis by simp
  next
    case False
    obtain svcs' where s: "dict_del (services st) (id_svc (last cur)) = Inr svcs'"
      "services_wf svcs'"
      "filter (\<lambda>s. service_name s = name) (map snd svcs') = butlast cur"
      "filter (\<lambda>kv. \<not> service_name (snd kv) = name) svcs' =
       filter (\<lambda>kv. \<not> service_name (snd kv) = name) (services st)"
      using scale_down_step [of "services st" cur "\<lambda>s. service_name s = name"] Suc.prems False
      by (auto simp: current_instances_def)
    let ?st = "st\<lparr>services := svcs'\<rparr>"
    have e: "scale_down (Suc n) cur st = scale_down n (butlast cur) ?st"
      using False s(1) by simp
    have "butlast cur = current_instances name ?st"
      using s(3) by (simp add: current_instances_def)
    moreover have "services_wf (services ?st)"
      using s(2) by simp
    ultimately have IH: "fst (scale_down n (butlast cur) ?st) = Returned () \<and>
       datacenters (snd (scale_down n (butlast cur) ?st)) = datacenters ?st \<and>
       healing_actions (snd (scale_down n (butlast cur) ?st)) = healing_actions ?st \<and>
       services_wf (services (snd (scale_down n (butlast cur) ?st))) \<and>
       current_instances name (snd (scale_down n (butlast cur) ?st)) =
         take (length (butlast cur) - n) (butlast cur) \<and>
       filter (\<lambda>kv. service_name (snd kv) \<noteq> name) (services (snd (scale_down n (butlast cur) ?st))) =
         filter (\<lambda>kv. service_name (snd kv) \<noteq> name) (services ?st)"
      by (intro Suc.IH) simp_all
    have t: "take (length (butlast cur) - n) (butlast cur) = take (length cur - Suc n) cur"
      using False by (simp add: take_butlast)
    show ?thesis
      unfolding e using IH s(4) t by simp
  qed
qed

lemma scale_service_down:
  assumes "services_wf (services st)" and "target < int (service_count name st)"
  shows "scale_service name target clock st =
         scale_down (nat (int (service_count name st) - target)) (current_instances name st) st"
  using assms(2) by (simp add: scale_service_def service_count_def Let_def)

subsection \<open>Scaling up\<close>

lemma id_dc_load_update:
  "id_dc ((dcs[i := (dcs ! i)\<lparr>current_load := x\<rparr>]) ! j) = id_dc (dcs ! j)"
  by (cases "i < length dcs"; cases "j = i") (simp_all add: list_update_beyond)

lemma new_entries_load_update:
  "new_entries name clock k sel (dcs[i := (dcs ! i)\<lparr>current_load := x\<rparr>]) =
   new_entries name clock k sel dcs"
  by (induction sel arbitrary: k) (simp_all add: id_dc_load_update)

lemma deploy_loop_effect:
  "deploy_loop name clock k sel st deployed =
     (st\<lparr>services := fold (\<lambda>e svcs. dict_set svcs (fst e) (snd e))
                       (new_entries name clock k sel (datacenters st)) (services st),
         datacenters := fold (\<lambda>i. add_load i 1000) sel (datacenters st)\<rparr>,
      deployed @ map fst (new_entries name clock k sel (datacenters st)))"
proof (induction sel arbitrary: k st deployed)
  case Nil
  then show ?case by simp
next
  case (Cons i sel)
  show ?case
    by (simp add: Let_def Cons.IH new_entries_load_update add_load_def)
qed

lemma dict_set_fresh: "k \<notin> set (map fst svcs) \<Longrightarrow> dict_set svcs k v = svcs @ [(k, v)]"
  by (induction svcs) auto

lemma fold_dict_set_fresh:
  "distinct (map fst es) \<Longrightarrow> set (map fst es) \<inter> set (map fst svcs) = {} \<Longrightarrow>
   fold (\<lambda>e svcs. dict_set svcs (fst e) (snd e)) es svcs = svcs @ es"
proof (induction es arbitrary: svcs)
  case Nil
  then show ?case by simp
next
  case (Cons e es)
  have f: "dict_set svcs (fst e) (snd e) = svcs @ [e]"
    using Cons.prems(2) by (simp add: dict_set_fresh)
  have "set (map fst es) \<inter> set (map fst (svcs @ [e])) = {}"
    using Cons.prems by auto
  then have "fold (\<lambda>e svcs. dict_set svcs (fst e) (snd e)) es (svcs @ [e]) = (svcs @ [e]) @ es"
    using Cons.prems(1) by (intro Cons.IH) simp_all
  then show ?case by (simp add: f)
qed

lemma new_entries_length [simp]: "length (new_entries name clock k sel dcs) = length sel"
  by (induction sel arbitrary: k) simp_all

lemma new_entries_name:
  "list_all (\<lambda>e. service_name (snd e) = name) (new_entries name clock k sel dcs)"
  by (induction sel arbitrary: k) (simp_all add: new_instance_def)

lemma available_dcs_length:
  "available_dcs r dcs = Inr sel \<Longrightarrow>
   length sel = (if 0 \<le> r then min (nat r) (length dcs) else nat (int (length dcs) + r))"
  by (auto simp: available_dcs_def py_slice_to_def split: if_splits)

lemma deploy_service_fresh:
  assumes "fst (deploy_service name r clock st) = Returned ids"
    and "distinct ids" and "set ids \<inter> set (map fst (services st)) = {}"
  shows "\<exists>sel. available_dcs r (datacenters st) = Inr sel \<and>
           services (snd (deploy_service name r clock st)) =
             services st @ new_entries name clock 0 sel (datacenters st)"
proof -
  from assms(1) obtain sel where sel: "available_dcs r (datacenters st) = Inr sel"
    by (cases "available_dcs r (datacenters st)") (auto simp: deploy_service_def)
  let ?es = "new_entries name clock 0 sel (datacenters st)"
  have ids: "ids = map fst ?es"
    using assms(1) sel by (simp add: deploy_service_def deploy_loop_effect)
  have "fold (\<lambda>e svcs. dict_set svcs (fst e) (snd e)) ?es (services st) = services st @ ?es"
    using assms(2,3) unfolding ids by (rule fold_dict_set_fresh)
  then have "services (snd (deploy_service name r clock st)) = services st @ ?es"
    using sel by (simp add: deploy_service_def deploy_loop_effect)
  with sel show ?thesis by blast
qed

lemma scale_service_up:
  assumes "int (service_count name st) < target"
  shows "fst (scale_service name target clock st) =
           (case fst (deploy_service name (target - int (service_count name st)) clock st) of
              Returned ids \<Rightarrow> Returned () | Raised e \<Rightarrow> Raised e)"
    and "snd (scale_service name target clock st) =
           snd (deploy_service name (target - int (service_count name st)) clock st)"
proof -
  obtain r st' where d: "deploy_service name (target - int (service_count name st)) clock st = (r, st')"
    by (cases "deploy_service name (target - int (service_count name st)) clock st")
  show "fst (scale_service name target clock st) =
           (case fst (deploy_service name (target - int (service_count name st)) clock st) of
              Returned ids \<Rightarrow> Returned () | Raised e \<Rightarrow> Raised e)"
    using assms d by (cases r) (simp_all add: scale_service_def service_count_def Let_def)
  show "snd (scale_service name target clock st) =
           snd (deploy_service name (target - int (service_count name st)) clock st)"
    using assms d by (cases r) (simp_all add: scale_service_def service_count_def Let_def)
qed

text \<open>The shape of the instance table is kept by \<open>deploy_service\<close>, so it holds in
  every state built by deploying and scaling from an empty table.\<close>

lemma map_fst_dict_set:
  "map fst (dict_set svcs k v) =
     (if k \<in> set (map fst svcs) then map fst svcs else map fst svcs @ [k])"
  by (induction svcs) force+

lemma set_dict_set: "set (dict_set svcs k v) \<subseteq> insert (k, v) (set svcs)"
  by (induction svcs) (auto split: if_splits)

lemma dict_set_wf:
  assumes "services_wf svcs" and "k = id_svc v"
  shows "services_wf (dict_set svcs k v)"
proof -
  have "distinct (map fst (dict_set svcs k v))"
    using assms(1) by (simp add: map_fst_dict_set services_wf_def)
  moreover have "list_all (\<lambda>kv. fst kv = id_svc (snd kv)) (dict_set svcs k v)"
    using assms set_dict_set [of svcs k v] by (auto simp: services_wf_def list_all_iff)
  ultimately show ?thesis by (simp add: services_wf_def)
qed

lemma new_entries_keys:
  "list_all (\<lambda>e. fst e = id_svc (snd e)) (new_entries name clock k sel dcs)"
  by (induction sel arbitrary: k) (simp_all add: new_instance_def)

lemma fold_dict_set_wf:
  "services_wf svcs \<Longrightarrow> list_all (\<lambda>e. fst e = id_svc (snd e)) es \<Longrightarrow>
   services_wf (fold (\<lambda>e svcs. dict_set svcs (fst e) (snd e)) es svcs)"
  by (induction es arbitrary: svcs) (simp_all add: dict_set_wf)

lemma deploy_service_wf:
  "services_wf (services st) \<Longrightarrow> services_wf (services (snd (deploy_service name r clock st)))"
  by (cases "available_dcs r (datacenters st)")
     (simp_all add: deploy_service_def deploy_loop_effect fold_dict_set_wf new_entries_keys)

lemma scale_service_down_effect:
  assumes "services_wf (services st)" and "target < int (service_count name st)"
  shows "fst (scale_service name target clock st) = Returned () \<and>
         datacenters (snd (scale_service name target clock st)) = datacenters st \<and>
         current_instances name (snd (scale_service name target clock st)) =
           take (nat target) (current_instances name st) \<and>
         filter (\<lambda>kv. service_name (snd kv) \<noteq> name) (services (snd (scale_service name target clock st))) =
           filter (\<lambda>kv. service_name (snd kv) \<noteq> name) (services st)"
proof -
  let ?cur = "current_instances name st"
  let ?n = "nat (int (service_count name st) - target)"
  have e: "scale_service name target clock st = scale_down ?n ?cur st"
    using assms by (rule scale_service_down)
  have "length ?cur - ?n = nat target"
    using assms(2) by (simp add: service_count_def)
  with scale_down_effect [of st ?cur name ?n, OF assms(1) refl] show ?thesis
    unfolding e by simp
qed

text \<open>
  Claim C8 (scale-down load release), as amended. On a well-formed instance table, the
  scale-down path of \<open>scale_service\<close> returns without an exception, deletes the most
  recently inserted instances of the service until \<open>target_instances\<close> of them are
  left (none when the target is negative), leaves the instances of other services as
  they are, and leaves the data centres, and so every \<open>current_load\<close>, unchanged.
\<close>

theorem scale_down_keeps_load:
  assumes "services_wf (services st)" and "target < int (service_count name st)"
  shows "fst (scale_service name target clock st) = Returned () \<and>
         datacenters (snd (scale_service name target clock st)) = datacenters st \<and>
         current_instances name (snd (scale_service name target clock st)) =
           take (nat target) (current_instances name st) \<and>
         filter (\<lambda>kv. service_name (snd kv) \<noteq> name) (services (snd (scale_service name target clock st))) =
           filter (\<lambda>kv. service_name (snd kv) \<noteq> name) (services st)"
  using assms by (rule scale_service_down_effect)

theorem scale_down_keeps_load_witness:
  "services_wf (services two_instances) \<and> 1 < int (service_count ''svc'' two_instances) \<and>
   fst (scale_service ''svc'' 1 (\<lambda>_. 7) two_instances) = Returned () \<and>
   datacenters (snd (scale_service ''svc'' 1 (\<lambda>_. 7) two_instances)) = datacenters two_instances \<and>
   map current_load (datacenters two_instances) = [2000] \<and>
   map id_svc (current_instances ''svc'' two_instances) = [''svc-A-5'', ''svc-A-6''] \<and>
   map id_svc (current_instances ''svc'' (snd (scale_service ''svc'' 1 (\<lambda>_. 7) two_instances)))
     = [''svc-A-5'']"
proof -
  have h: "services_wf (services two_instances)" "1 < int (service_count ''svc'' two_instances)"
    by code_simp+
  have c: "map current_load (datacenters two_instances) = [2000]"
    "map id_svc (current_instances ''svc'' two_instances) = [''svc-A-5'', ''svc-A-6'']"
    by code_simp+
  have "map id_svc (current_instances ''svc'' (snd (scale_service ''svc'' 1 (\<lambda>_. 7) two_instances)))
        = map id_svc (take (nat 1) (current_instances ''svc'' two_instances))"
    using scale_down_keeps_load [OF h, of "\<lambda>_. 7"] by simp
  also have "\<dots> = [''svc-A-5'']"
    by (simp add: take_map [symmetric] c(2))
  finally show ?thesis
    using scale_down_keeps_load [OF h, of "\<lambda>_. 7"] h c by simp
qed

text \<open>
  Claim C8 as stated fails: the scale-down path never touches a load. After one
  instance has been placed on a data centre (load 1000) and the service is scaled to
  zero, the instance is gone and the load is still 1000, not 0.
\<close>

theorem scale_down_does_not_release_load:
  "map current_load (datacenters one_instance) = [1000] \<and>
   map (\<lambda>kv. datacenter_id (snd kv)) (services one_instance) = [''A''] \<and>
   fst (scale_service ''svc'' 0 (\<lambda>_. 7) one_instance) = Returned () \<and>
   services (snd (scale_service ''svc'' 0 (\<lambda>_. 7) one_instance)) = [] \<and>
   map current_load (datacenters (snd (scale_service ''svc'' 0 (\<lambda>_. 7) one_instance))) = [1000]"
  by code_simp

text \<open>
  Claim C5 (autoscale exactness), as amended. For a target between zero and the
  current count, on a well-formed instance table, \<open>scale_service\<close> returns and leaves
  exactly \<open>target_instances\<close> instances of the service. For a target above the current
  count, when the deployment returns and the instance ids it generates are pairwise
  different and not yet keys of the table, it adds one instance per selected data
  centre, at most one per data centre of the registry: the new count is the smaller of
  the target and the old count plus the number of data centres.
\<close>

theorem scale_service_count:
  "(services_wf (services st) \<and> 0 \<le> target \<and> target \<le> int (service_count name st) \<longrightarrow>
      fst (scale_service name target clock st) = Returned () \<and>
      int (service_count name (snd (scale_service name target clock st))) = target) \<and>
   (int (service_count name st) < target \<and>
    fst (deploy_service name (target - int (service_count name st)) clock st) = Returned ids \<and>
    distinct ids \<and> set ids \<inter> set (map fst (services st)) = {} \<longrightarrow>
      fst (scale_service name target clock st) = Returned () \<and>
      int (service_count name (snd (scale_service name target clock st))) =
        min target (int (service_count name st) + int (length (datacenters st))))"
proof (intro conjI impI)
  assume a: "services_wf (services st) \<and> 0 \<le> target \<and> target \<le> int (service_count name st)"
  show "fst (scale_service name target clock st) = Returned ()"
  proof (cases "target = int (service_count name st)")
    case True
    then show ?thesis by (simp add: scale_service_def service_count_def Let_def)
  next
    case False
    with a scale_service_down_effect [of st target name clock] show ?thesis by simp
  qed
  show "int (service_count name (snd (scale_service name target clock st))) = target"
  proof (cases "target = int (service_count name st)")
    case True
    then show ?thesis by (simp add: scale_service_def service_count_def Let_def)
  next
    case False
    with a have "current_instances name (snd (scale_service name target clock st)) =
           take (nat target) (current_instances name st)"
      using scale_service_down_effect [of st target name clock] by simp
    moreover have "nat target \<le> length (current_instances name st)"
      using a unfolding service_count_def by linarith
    ultimately show ?thesis
      using a by (simp add: service_count_def min_absorb2)
  qed
next
  assume b: "int (service_count name st) < target \<and>
    fst (deploy_service name (target - int (service_count name st)) clock st) = Returned ids \<and>
    distinct ids \<and> set ids \<inter> set (map fst (services st)) = {}"
  define r where "r = target - int (service_count name st)"
  from b have up: "int (service_count name st) < target" by simp
  have fst_up: "fst (scale_service name target clock st) =
           (case fst (deploy_service name r clock st) of
              Returned ids \<Rightarrow> Returned () | Raised e \<Rightarrow> Raised e)"
    and snd_up: "snd (scale_service name target clock st) = snd (deploy_service name r clock st)"
    unfolding r_def using up by (rule scale_service_up)+
  have d: "fst (deploy_service name r clock st) = Returned ids"
    using b by (simp add: r_def)
  show "fst (scale_service name target clock st) = Returned ()"
    by (simp add: fst_up d)
  obtain sel where sel: "available_dcs r (datacenters st) = Inr sel"
    and svcs: "services (snd (deploy_service name r clock st)) =
               services st @ new_entries name clock 0 sel (datacenters st)"
    using deploy_service_fresh [OF d] b by blast
  have "filter (\<lambda>s. service_name s = name) (map snd (new_entries name clock 0 sel (datacenters st)))
        = map snd (new_entries name clock 0 sel (datacenters st))"
    using new_entries_name [of name clock 0 sel "datacenters st"]
    by (simp add: list_all_iff)
  then have "current_instances name (snd (deploy_service name r clock st)) =
        current_instances name st @ map snd (new_entries name clock 0 sel (datacenters st))"
    by (simp add: current_instances_def svcs)
  then have "length (current_instances name (snd (deploy_service name r clock st))) =
        length (current_instances name st) + length sel"
    by simp
  moreover have "length sel = min (nat r) (length (datacenters st))"
    using available_dcs_length [OF sel] up by (simp add: r_def)
  ultimately have cnt: "int (service_count name (snd (scale_service name target clock st))) =
        int (service_count name st) + int (min (nat r) (length (datacenters st)))"
    by (simp only: snd_up service_count_def of_nat_add)
  have "0 < r" "target = int (service_count name st) + r"
    using up by (simp_all add: r_def)
  then show "int (service_count name (snd (scale_service name target clock st))) =
        min target (int (service_count name st) + int (length (datacenters st)))"
    unfolding cnt min_def by (auto simp: nat_le_iff)
qed

theorem scale_service_count_witness:
  "services_wf (services two_instances) \<and> (0::int) \<le> 1 \<and> 1 \<le> int (service_count ''svc'' two_instances) \<and>
   fst (scale_service ''svc'' 1 (\<lambda>_. 7) two_instances) = Returned () \<and>
   int (service_count ''svc'' (snd (scale_service ''svc'' 1 (\<lambda>_. 7) two_instances))) = 1 \<and>
   int (service_count ''svc'' one_pool) < 1 \<and>
   fst (deploy_service ''svc'' (1 - int (service_count ''svc'' one_pool)) (\<lambda>_. 7) one_pool)
     = Returned [''svc-A-7''] \<and>
   distinct [''svc-A-7''] \<and> set [''svc-A-7''] \<inter> set (map fst (services one_pool)) = {} \<and>
   fst (scale_service ''svc'' 1 (\<lambda>_. 7) one_pool) = Returned () \<and>
   int (service_count ''svc'' (snd (scale_service ''svc'' 1 (\<lambda>_. 7) one_pool))) = 1"
proof -
  have a: "services_wf (services two_instances)" "1 \<le> int (service_count ''svc'' two_instances)"
    by code_simp+
  have c: "service_count ''svc'' one_pool = 0" "length (datacenters one_pool) = 1"
    "services one_pool = []"
    by code_simp+
  have d: "fst (deploy_service ''svc'' (1 - int (service_count ''svc'' one_pool)) (\<lambda>_. 7) one_pool)
     = Returned [''svc-A-7'']"
    unfolding c by code_simp
  show ?thesis
    using scale_service_count [of two_instances 1 "''svc''" "\<lambda>_. 7" "[]"]
      scale_service_count [of one_pool 1 "''svc''" "\<lambda>_. 7" "[''svc-A-7'']"] a c d
    by simp
qed

text \<open>
  Claim C5 as stated fails on the scale-up path: \<open>deploy_service\<close> places at most one
  instance per data centre, so with one data centre and no instance a target of 2
  ends with one instance.
\<close>

theorem scale_up_misses_target:
  "service_count ''svc'' one_pool = 0 \<and>
   fst (scale_service ''svc'' 2 (\<lambda>_. 7) one_pool) = Returned () \<and>
   service_count ''svc'' (snd (scale_service ''svc'' 2 (\<lambda>_. 7) one_pool)) = 1"
  by code_simp

subsection \<open>Placement\<close>

lemma py_slice_to_take: "\<exists>k. py_slice_to r xs = take k xs"
  by (auto simp: py_slice_to_def)

lemma sorted_take_drop:
  fixes f :: "nat \<Rightarrow> 'k::linorder"
  assumes "i \<in> set (take k (sort_key f [0..<n]))" and "j < n"
    and "j \<notin> set (take k (sort_key f [0..<n]))"
  shows "f i \<le> f j \<and> (f i = f j \<longrightarrow> i < j)"
proof -
  let ?s = "sort_key f [0..<n]"
  have "j \<in> set ?s" using assms(2) by simp
  then have "j \<in> set (take k ?s) \<union> set (drop k ?s)"
    by (metis append_take_drop_id set_append)
  with assms(3) have j: "j \<in> set (drop k ?s)" by simp
  have "sorted (map f (take k ?s @ drop k ?s))"
    by (simp add: sorted_sort_key)
  then have "sorted (map f (take k ?s) @ map f (drop k ?s))"
    by (simp only: map_append)
  then have "\<forall>x\<in>set (map f (take k ?s)). \<forall>y\<in>set (map f (drop k ?s)). x \<le> y"
    unfolding sorted_append by blast
  then have le: "f i \<le> f j"
    using assms(1) j by (metis image_eqI set_map)
  have "i < j" if eq: "f i = f j"
  proof -
    let ?P = "\<lambda>y. f y = f i"
    have "filter ?P (take k ?s) @ filter ?P (drop k ?s) = filter ?P ?s"
      by (metis append_take_drop_id filter_append)
    also have "\<dots> = filter ?P [0..<n]"
      by (rule sort_key_stable)
    finally have "sorted_wrt (<) (filter ?P (take k ?s) @ filter ?P (drop k ?s))"
      by (simp add: sorted_wrt_filter)
    moreover have "i \<in> set (filter ?P (take k ?s))" "j \<in> set (filter ?P (drop k ?s))"
      using assms(1) j eq by simp_all
    ultimately show ?thesis
      by (auto simp: sorted_wrt_append)
  qed
  with le show ?thesis by simp
qed

lemma available_dcs_defined:
  "\<not> list_ex (\<lambda>dc. capacity dc = 0) dcs \<Longrightarrow>
   available_dcs r dcs = Inr (py_slice_to r (sort_key (\<lambda>i. load_ratio (dcs ! i)) [0..<length dcs]))"
  by (simp add: available_dcs_def)

lemma available_dcs_props:
  assumes "available_dcs r dcs = Inr sel"
  shows "distinct sel" and "\<forall>i\<in>set sel. i < length dcs"
    and "\<forall>i\<in>set sel. \<forall>j<length dcs. j \<notin> set sel \<longrightarrow>
           load_ratio (dcs ! i) \<le> load_ratio (dcs ! j) \<and>
           (load_ratio (dcs ! i) = load_ratio (dcs ! j) \<longrightarrow> i < j)"
proof -
  let ?f = "\<lambda>i. load_ratio (dcs ! i)"
  let ?s = "sort_key ?f [0..<length dcs]"
  from assms have "sel = py_slice_to r ?s"
    by (auto simp: available_dcs_def split: if_splits)
  then obtain k where k: "sel = take k ?s"
    using py_slice_to_take [of r ?s] by auto
  show "distinct sel"
    unfolding k by (simp add: distinct_take)
  show "\<forall>i\<in>set sel. i < length dcs"
  proof
    fix i assume "i \<in> set sel"
    then have "i \<in> set ?s" unfolding k by (rule in_set_takeD)
    then show "i < length dcs" by simp
  qed
  show "\<forall>i\<in>set sel. \<forall>j<length dcs. j \<notin> set sel \<longrightarrow>
           load_ratio (dcs ! i) \<le> load_ratio (dcs ! j) \<and>
           (load_ratio (dcs ! i) = load_ratio (dcs ! j) \<longrightarrow> i < j)"
    unfolding k using sorted_take_drop [of _ k ?f "length dcs"] by blast
qed

lemma deploy_service_datacenters:
  "available_dcs r (datacenters st) = Inr sel \<Longrightarrow>
   datacenters (snd (deploy_service name r clock st)) =
     fold (\<lambda>i. add_load i 1000) sel (datacenters st)"
  by (simp add: deploy_service_def deploy_loop_effect)




end
